theory Spec2Isabelle
  imports Complex_Main "HOL-Library.Log_Nat"
begin

section \<open>JavaScript numbers\<close>

text \<open>
  The arithmetic of \<^verbatim>\<open>custom.js\<close> runs on JavaScript Number values, that is on
  IEEE 754 binary64 floating point numbers. A number is \<open>NaN\<close>, an infinity with its
  sign, or a finite value given by its sign bit (\<open>True\<close> for negative) and its
  magnitude, so that \<open>+0\<close> and \<open>-0\<close> are different values. Every rational magnitude is
  admitted by the type, and the operations round their results to binary64.
\<close>

datatype jsnum = NaN | Infty bool | Fin bool rat

fun val :: "jsnum \<Rightarrow> rat" where
  "val (Fin s q) = (if s then - \<bar>q\<bar> else \<bar>q\<bar>)"
| "val (Infty s) = 0"
| "val NaN = 0"

text \<open>The number written by an integer literal (exact below \<open>2 ^ 53\<close>).\<close>

definition num :: "int \<Rightarrow> jsnum" where
  "num i = Fin (i < 0) (of_int \<bar>i\<bar>)"

subsection \<open>Rounding to binary64\<close>

text \<open>\<open>ilog2 q\<close> is the binary exponent of a positive rational: \<open>2 ^ e \<le> q < 2 ^ (e + 1)\<close>.\<close>

definition ilog2 :: "rat \<Rightarrow> int" where
  "ilog2 q = (if 1 \<le> q then bitlen \<lfloor>q\<rfloor> - 1 else - bitlen (\<lceil>1 / q\<rceil> - 1))"

definition round_half_even :: "rat \<Rightarrow> int" where
  "round_half_even x =
     (let f = \<lfloor>x\<rfloor>; d = x - of_int f
      in if d < 1 / 2 then f else if 1 / 2 < d then f + 1 else if even f then f else f + 1)"

text \<open>
  Round to nearest, ties to even, with a significand of 53 bits; below the smallest
  normal exponent \<open>-1022\<close> the spacing stays \<open>2 ^ -1074\<close> (subnormal numbers).
\<close>

definition expo :: "rat \<Rightarrow> int" where
  "expo q = max (ilog2 q) (- 1022)"

definition rnd :: "rat \<Rightarrow> rat" where
  "rnd q =
     (if q = 0 then 0
      else let ulp = 2 powi (expo q - 52)
           in of_int (round_half_even (q / ulp)) * ulp)"

text \<open>A magnitude that rounds to \<open>2 ^ 1024\<close> or more overflows to an infinity.\<close>

definition fl :: "bool \<Rightarrow> rat \<Rightarrow> jsnum" where
  "fl s q = (let r = rnd q in if 2 ^ 1024 \<le> r then Infty s else Fin s r)"

text \<open>
  \<^verbatim>\<open>Number.MAX_VALUE\<close>, the largest finite binary64 number, and the finite numbers
  (\<^verbatim>\<open>Number.isFinite\<close>).
\<close>

definition MAX_VALUE :: rat where
  "MAX_VALUE = 2 ^ 1024 - 2 ^ 971"

definition is_finite :: "jsnum \<Rightarrow> bool" where
  "is_finite x = (case x of Fin s q \<Rightarrow> \<bar>q\<bar> \<le> MAX_VALUE | _ \<Rightarrow> False)"

subsection \<open>Operators\<close>

text \<open>\<^verbatim>\<open>x / y\<close> (Number::divide).\<close>

fun js_div :: "jsnum \<Rightarrow> jsnum \<Rightarrow> jsnum" where
  "js_div NaN y = NaN"
| "js_div (Infty s) NaN = NaN"
| "js_div (Infty s) (Infty t) = NaN"
| "js_div (Infty s) (Fin t b) = Infty (s \<noteq> t)"
| "js_div (Fin s a) NaN = NaN"
| "js_div (Fin s a) (Infty t) = Fin (s \<noteq> t) 0"
| "js_div (Fin s a) (Fin t b) =
     (if b = 0 then (if a = 0 then NaN else Infty (s \<noteq> t))
      else fl (s \<noteq> t) (\<bar>a\<bar> / \<bar>b\<bar>))"

text \<open>\<^verbatim>\<open>x * y\<close> (Number::multiply).\<close>

fun js_mul :: "jsnum \<Rightarrow> jsnum \<Rightarrow> jsnum" where
  "js_mul NaN y = NaN"
| "js_mul (Infty s) NaN = NaN"
| "js_mul (Infty s) (Infty t) = Infty (s \<noteq> t)"
| "js_mul (Infty s) (Fin t b) = (if b = 0 then NaN else Infty (s \<noteq> t))"
| "js_mul (Fin s a) NaN = NaN"
| "js_mul (Fin s a) (Infty t) = (if a = 0 then NaN else Infty (s \<noteq> t))"
| "js_mul (Fin s a) (Fin t b) = fl (s \<noteq> t) (\<bar>a\<bar> * \<bar>b\<bar>)"

text \<open>
  \<^verbatim>\<open>x + y\<close> (Number::add). An exact sum of zero is \<open>-0\<close> only when both operands are
  negative (then both are \<open>-0\<close>), and \<open>+0\<close> otherwise.
\<close>

fun js_add :: "jsnum \<Rightarrow> jsnum \<Rightarrow> jsnum" where
  "js_add NaN y = NaN"
| "js_add (Infty s) NaN = NaN"
| "js_add (Infty s) (Infty t) = (if s = t then Infty s else NaN)"
| "js_add (Infty s) (Fin t b) = Infty s"
| "js_add (Fin s a) NaN = NaN"
| "js_add (Fin s a) (Infty t) = Infty t"
| "js_add (Fin s a) (Fin t b) =
     (let r = val (Fin s a) + val (Fin t b)
      in if r = 0 then Fin (s \<and> t) 0 else fl (r < 0) \<bar>r\<bar>)"

text \<open>\<^verbatim>\<open>x++\<close> on a number stores \<open>x + 1\<close>.\<close>

definition js_inc :: "jsnum \<Rightarrow> jsnum" where
  "js_inc x = js_add x (num 1)"

text \<open>
  \<^verbatim>\<open>x < y\<close>: the abstract relational comparison is undefined when an operand is NaN,
  and the operator then yields false.
\<close>

fun js_lt :: "jsnum \<Rightarrow> jsnum \<Rightarrow> bool" where
  "js_lt NaN y = False"
| "js_lt (Infty s) NaN = False"
| "js_lt (Infty s) (Infty t) = (s \<and> \<not> t)"
| "js_lt (Infty s) (Fin t b) = s"
| "js_lt (Fin s a) NaN = False"
| "js_lt (Fin s a) (Infty t) = (\<not> t)"
| "js_lt (Fin s a) (Fin t b) = (val (Fin s a) < val (Fin t b))"

text \<open>\<^verbatim>\<open>x >= y\<close> is false when \<^verbatim>\<open>x < y\<close> is true or undefined, \<^verbatim>\<open>x <= y\<close> likewise.\<close>

definition js_ge :: "jsnum \<Rightarrow> jsnum \<Rightarrow> bool" where
  "js_ge x y = (x \<noteq> NaN \<and> y \<noteq> NaN \<and> \<not> js_lt x y)"

definition js_le :: "jsnum \<Rightarrow> jsnum \<Rightarrow> bool" where
  "js_le x y = (x \<noteq> NaN \<and> y \<noteq> NaN \<and> \<not> js_lt y x)"

definition js_gt :: "jsnum \<Rightarrow> jsnum \<Rightarrow> bool" where
  "js_gt x y = js_lt y x"

text \<open>\<^verbatim>\<open>x === y\<close> on numbers (Number::equal): NaN equals nothing, the two zeros are equal.\<close>

fun js_strict_eq :: "jsnum \<Rightarrow> jsnum \<Rightarrow> bool" where
  "js_strict_eq (Infty s) (Infty t) = (s = t)"
| "js_strict_eq (Fin s a) (Fin t b) = (val (Fin s a) = val (Fin t b))"
| "js_strict_eq x y = False"

section \<open>Attendance calculator\<close>

text \<open>
  \<^verbatim>\<open>function getAttendanceColor(percentage) {
    if (percentage >= 75) return 'success';
    if (percentage >= 65) return 'warning';
    return 'danger';
}\<close>
\<close>

definition getAttendanceColor :: "jsnum \<Rightarrow> string" where
  "getAttendanceColor percentage =
     (if js_ge percentage (num 75) then ''success''
      else if js_ge percentage (num 65) then ''warning''
      else ''danger'')"

text \<open>
  \<^verbatim>\<open>function calculateRequiredClasses(currentTotal, currentAttended, targetPercentage) {
    let required = 0;
    let futureTotal = currentTotal;
    let futureAttended = currentAttended;
    while ((futureAttended / futureTotal * 100) < targetPercentage && required < 100) {
        futureTotal++;
        futureAttended++;
        required++;
    }
    return required;
}\<close>

  The counter \<open>required\<close> starts at \<open>0\<close>, grows by one and is compared with \<open>100\<close>: it
  only takes the values \<open>0, \<dots>, 100\<close>, which binary64 represents exactly, and is a
  natural number here. The two other loop variables are numbers and are incremented
  in floating point.
\<close>

definition percentage_of :: "jsnum \<Rightarrow> jsnum \<Rightarrow> jsnum" where
  "percentage_of futureAttended futureTotal = js_mul (js_div futureAttended futureTotal) (num 100)"

function calculateRequiredClasses_loop :: "jsnum \<Rightarrow> jsnum \<Rightarrow> jsnum \<Rightarrow> nat \<Rightarrow> nat" where
  "calculateRequiredClasses_loop futureTotal futureAttended targetPercentage required =
     (if js_lt (percentage_of futureAttended futureTotal) targetPercentage \<and> required < 100
      then calculateRequiredClasses_loop (js_inc futureTotal) (js_inc futureAttended)
             targetPercentage (Suc required)
      else required)"
  by pat_completeness auto
termination
  by (relation "measure (\<lambda>(futureTotal, futureAttended, targetPercentage, required). 100 - required)")
    auto

declare calculateRequiredClasses_loop.simps [simp del]

definition calculateRequiredClasses :: "jsnum \<Rightarrow> jsnum \<Rightarrow> jsnum \<Rightarrow> nat" where
  "calculateRequiredClasses currentTotal currentAttended targetPercentage =
     calculateRequiredClasses_loop currentTotal currentAttended targetPercentage 0"

text \<open>
  The percentage the loop tests after \<open>k\<close> iterations, that is after \<open>k\<close> more classes
  which were all attended: both counts have been incremented \<open>k\<close> times.
\<close>

definition projected :: "nat \<Rightarrow> jsnum \<Rightarrow> jsnum \<Rightarrow> jsnum" where
  "projected k currentAttended currentTotal =
     percentage_of ((js_inc ^^ k) currentAttended) ((js_inc ^^ k) currentTotal)"

text \<open>A finite number above zero.\<close>

definition pos_finite :: "jsnum \<Rightarrow> bool" where
  "pos_finite x = (case x of Fin s q \<Rightarrow> \<not> s \<and> q \<noteq> 0 \<and> \<bar>q\<bar> \<le> MAX_VALUE | _ \<Rightarrow> False)"

text \<open>
  \<^verbatim>\<open>function calculateAttendance(totalClasses, attendedClasses) {
    if (totalClasses === 0) return 0;
    return ((attendedClasses / totalClasses) * 100).toFixed(2);
}\<close>

  The function returns the number \<open>0\<close> or the string made by \<^verbatim>\<open>toFixed\<close>.
\<close>

datatype jsval = JNumber jsnum | JString string

subsection \<open>Decimal numerals\<close>

definition digit_char :: "int \<Rightarrow> char" where
  "digit_char d = ''0123456789'' ! nat d"

function decimal :: "int \<Rightarrow> string" where
  "decimal n = (if n < 10 then [digit_char n] else decimal (n div 10) @ [digit_char (n mod 10)])"
  by pat_completeness auto
termination
  by (relation "measure nat") auto

declare decimal.simps [simp del]

definition round_half_up :: "rat \<Rightarrow> int" where
  "round_half_up x = \<lfloor>x + 1 / 2\<rfloor>"

subsection \<open>Number::toString of a large number\<close>

text \<open>
  For a number \<open>x\<close> of at least \<open>10 ^ 21\<close> the string is in exponent notation, with the
  least count \<open>k\<close> of significant digits \<open>s\<close> for which \<open>s * 10 ^ (n - k)\<close> rounds to
  \<open>x\<close>; of two such \<open>s\<close> the one closer to \<open>x\<close> is taken, the even one on a tie.
  \<open>shortest x d k\<close> tries \<open>k, k + 1, \<dots>\<close> digits on a number of \<open>d\<close> integer digits and
  returns \<open>s * 10 ^ (n - k)\<close>; seventeen digits always suffice for binary64.
\<close>

definition represents :: "rat \<Rightarrow> int \<Rightarrow> bool" where
  "represents x v = (fl False (of_int v) = Fin False x)"

definition closer :: "rat \<Rightarrow> int \<Rightarrow> int \<Rightarrow> int \<Rightarrow> int" where
  "closer x p lo hi =
     (let dl = x - of_int (lo * p); dh = of_int (hi * p) - x
      in if dl < dh then lo * p else if dh < dl then hi * p
         else if even lo then lo * p else hi * p)"

fun shortest :: "rat \<Rightarrow> nat \<Rightarrow> nat \<Rightarrow> nat \<Rightarrow> int" where
  "shortest x d k 0 = round_half_up (x / 10 ^ (d - k)) * 10 ^ (d - k)"
| "shortest x d k (Suc fuel) =
     (let p = 10 ^ (d - k); lo = \<lfloor>x / of_int p\<rfloor>; hi = lo + 1
      in if represents x (lo * p) \<and> represents x (hi * p) then closer x p lo hi
         else if represents x (lo * p) then lo * p
         else if represents x (hi * p) then hi * p
         else shortest x d (Suc k) fuel)"

definition trim_zeros :: "string \<Rightarrow> string" where
  "trim_zeros ds = rev (dropWhile (\<lambda>c. c = CHR ''0'') (rev ds))"

definition exponential :: "rat \<Rightarrow> string" where
  "exponential x =
     (let v = shortest x (length (decimal \<lfloor>x\<rfloor>)) 1 16;
          ds = trim_zeros (decimal v);
          e = int (length (decimal v)) - 1
      in (if length ds = 1 then ds else hd ds # ''.'' @ tl ds) @ ''e+'' @ decimal e)"

subsection \<open>Number.prototype.toFixed\<close>

text \<open>
  \<open>fixed_digits n f\<close> writes the integer \<open>n\<close> with a decimal point before its last \<open>f\<close>
  digits, padding with zeros on the left so that a digit precedes the point.
\<close>

definition fixed_digits :: "int \<Rightarrow> nat \<Rightarrow> string" where
  "fixed_digits n f =
     (let m = decimal n;
          m = (if length m \<le> f then replicate (f + 1 - length m) CHR ''0'' @ m else m);
          k = length m
      in if f = 0 then m else take (k - f) m @ ''.'' @ drop (k - f) m)"

text \<open>
  \<open>x.toFixed(f)\<close>: a number that is not finite gives its name; otherwise the sign is set
  aside (\<open>-0\<close> is not negative), a magnitude of \<open>10 ^ 21\<close> or more is written by
  Number::toString, and a smaller one is written as the integer \<open>n\<close> nearest to
  \<open>x * 10 ^ f\<close> (the larger of two) with the point before the last \<open>f\<close> digits.
\<close>

definition toFixed :: "jsnum \<Rightarrow> nat \<Rightarrow> string" where
  "toFixed x f =
     (case x of
        NaN \<Rightarrow> ''NaN''
      | Infty s \<Rightarrow> (if s then ''-Infinity'' else ''Infinity'')
      | Fin s q \<Rightarrow>
          (if s \<and> q \<noteq> 0 then ''-'' else []) @
          (if 10 ^ 21 \<le> \<bar>q\<bar> then exponential \<bar>q\<bar>
           else fixed_digits (round_half_up (\<bar>q\<bar> * 10 ^ f)) f))"

definition calculateAttendance :: "jsnum \<Rightarrow> jsnum \<Rightarrow> jsval" where
  "calculateAttendance totalClasses attendedClasses =
     (if js_strict_eq totalClasses (num 0) then JNumber (num 0)
      else JString (toFixed (percentage_of attendedClasses totalClasses) 2))"

subsection \<open>The value of a result\<close>

text \<open>
  The mathematical value of a decimal numeral \<^verbatim>\<open>-ddd.ddd\<close>, as StringToNumber reads it
  before rounding, and the value of a finite result of \<open>calculateAttendance\<close>.
\<close>

definition is_digit :: "char \<Rightarrow> bool" where
  "is_digit c = (c \<in> set ''0123456789'')"

definition digit_value :: "char \<Rightarrow> int" where
  "digit_value c = int (of_char c) - 48"

definition digits_number :: "string \<Rightarrow> int" where
  "digits_number ds = foldl (\<lambda>a c. 10 * a + digit_value c) 0 ds"

definition digits_value :: "string \<Rightarrow> int option" where
  "digits_value ds =
     (if list_all is_digit ds then Some (foldl (\<lambda>a c. 10 * a + digit_value c) 0 ds) else None)"

definition decimal_value :: "string \<Rightarrow> rat option" where
  "decimal_value str =
     (let neg = (str \<noteq> [] \<and> hd str = CHR ''-'');
          body = (if neg then tl str else str);
          ip = takeWhile (\<lambda>c. c \<noteq> CHR ''.'') body;
          fp = drop (length ip + 1) body
      in case (digits_value ip, digits_value fp) of
           (Some i, Some f) \<Rightarrow>
             (if ip = [] then None
              else Some ((if neg then - 1 else 1) * (of_int i + of_int f / 10 ^ length fp)))
         | _ \<Rightarrow> None)"

fun jsval_value :: "jsval \<Rightarrow> rat option" where
  "jsval_value (JNumber (Fin s q)) = Some (val (Fin s q))"
| "jsval_value (JNumber x) = None"
| "jsval_value (JString str) = decimal_value str"

section \<open>The document\<close>

text \<open>
  The filters and the loading overlay work on the page's element tree. An element
  carries its tag name, its \<open>id\<close>, its class, its \<open>data-*\<close> attributes (the \<open>dataset\<close>, by
  key) and the \<open>display\<close> property of its inline style; a node is an element with its
  child nodes, and the document is the list of its top nodes, the first being the
  document element. Document order is the preorder of the tree.
\<close>

record element =
  tagName :: string
  ident :: string
  className :: string
  dataset :: "(string \<times> string) list"
  display :: string

datatype node = Node (elem: element) (children: "node list")

type_synonym document = "node list"

fun elements :: "node \<Rightarrow> element list" where
  "elements (Node e cs) = e # concat (map elements cs)"

definition all_elements :: "document \<Rightarrow> element list" where
  "all_elements doc = concat (map elements doc)"

text \<open>\<^verbatim>\<open>document.querySelectorAll('[data-KEY]')\<close>: the elements that have the attribute.\<close>

definition has_data :: "string \<Rightarrow> element \<Rightarrow> bool" where
  "has_data key row = (map_of (dataset row) key \<noteq> None)"

definition querySelectorAll :: "string \<Rightarrow> document \<Rightarrow> element list" where
  "querySelectorAll key doc = filter (has_data key) (all_elements doc)"

subsection \<open>Filters\<close>

text \<open>
  \<^verbatim>\<open>function filterByStatus(status) {
    const rows = document.querySelectorAll('[data-status]');
    rows.forEach(row => {
        if (status === 'all' || row.dataset.status === status) {
            row.style.display = '';
        } else {
            row.style.display = 'none';
        }
    });
}\<close>

  \<open>filterByDay\<close> and \<open>filterBySemester\<close> are the same function on \<open>data-day\<close> and
  \<open>data-semester\<close>. The callback writes the style of the row it is given, and the rows
  are the elements with the attribute, wherever they are in the tree.
\<close>

definition filter_row :: "string \<Rightarrow> string \<Rightarrow> element \<Rightarrow> element" where
  "filter_row key wanted row =
     (if wanted = ''all'' \<or> map_of (dataset row) key = Some wanted
      then row\<lparr>display := ''''\<rparr>
      else row\<lparr>display := ''none''\<rparr>)"

fun for_each_row :: "string \<Rightarrow> (element \<Rightarrow> element) \<Rightarrow> node \<Rightarrow> node" where
  "for_each_row key f (Node e cs) =
     Node (if has_data key e then f e else e) (map (for_each_row key f) cs)"

definition filterByDay :: "string \<Rightarrow> document \<Rightarrow> document" where
  "filterByDay day doc = map (for_each_row ''day'' (filter_row ''day'' day)) doc"

definition filterByStatus :: "string \<Rightarrow> document \<Rightarrow> document" where
  "filterByStatus status doc = map (for_each_row ''status'' (filter_row ''status'' status)) doc"

definition filterBySemester :: "string \<Rightarrow> document \<Rightarrow> document" where
  "filterBySemester semester doc =
     map (for_each_row ''semester'' (filter_row ''semester'' semester)) doc"

text \<open>The tree with every inline \<open>display\<close> cleared: all that a filter leaves alone.\<close>

fun without_display :: "node \<Rightarrow> node" where
  "without_display (Node e cs) = Node (e\<lparr>display := ''''\<rparr>) (map without_display cs)"

subsection \<open>Loading overlay\<close>

text \<open>
  \<^verbatim>\<open>function showLoading() {
    const overlay = document.createElement('div');
    overlay.id = 'loadingOverlay';
    overlay.className = 'spinner-overlay';
    overlay.innerHTML = '<div class="spinner"></div>';
    document.body.appendChild(overlay);
}\<close>

  \<^verbatim>\<open>document.body\<close> is the first \<open>body\<close> or \<open>frameset\<close> child of the \<open>html\<close> document
  element, and \<open>null\<close> when there is none: the call of \<open>appendChild\<close> then throws a
  TypeError.
\<close>

datatype error = TypeError | URIError

definition overlay :: node where
  "overlay =
     Node \<lparr>tagName = ''DIV'', ident = ''loadingOverlay'', className = ''spinner-overlay'',
           dataset = [], display = ''''\<rparr>
       [Node \<lparr>tagName = ''DIV'', ident = '''', className = ''spinner'',
              dataset = [], display = ''''\<rparr> []]"

definition is_body :: "node \<Rightarrow> bool" where
  "is_body n = (tagName (elem n) = ''BODY'' \<or> tagName (elem n) = ''FRAMESET'')"

fun appendChild_first :: "(node \<Rightarrow> bool) \<Rightarrow> node \<Rightarrow> node list \<Rightarrow> node list option" where
  "appendChild_first p c [] = None"
| "appendChild_first p c (n # ns) =
     (if p n then Some (Node (elem n) (children n @ [c]) # ns)
      else map_option ((#) n) (appendChild_first p c ns))"

definition body_appendChild :: "node \<Rightarrow> document \<Rightarrow> error + document" where
  "body_appendChild c doc =
     (case doc of
        [] \<Rightarrow> Inl TypeError
      | Node e cs # rest \<Rightarrow>
          (if tagName e = ''HTML''
           then (case appendChild_first is_body c cs of
                   None \<Rightarrow> Inl TypeError
                 | Some cs' \<Rightarrow> Inr (Node e cs' # rest))
           else Inl TypeError))"

definition showLoading :: "document \<Rightarrow> error + document" where
  "showLoading doc = body_appendChild overlay doc"

text \<open>The child nodes of \<^verbatim>\<open>document.body\<close>.\<close>

definition body_children :: "document \<Rightarrow> node list option" where
  "body_children doc =
     (case doc of
        [] \<Rightarrow> None
      | Node e cs # rest \<Rightarrow>
          (if tagName e = ''HTML'' then map_option children (find is_body cs) else None))"

definition count_id :: "string \<Rightarrow> document \<Rightarrow> nat" where
  "count_id i doc = length (filter (\<lambda>e. ident e = i) (all_elements doc))"

text \<open>
  \<^verbatim>\<open>function hideLoading() {
    const overlay = document.getElementById('loadingOverlay');
    if (overlay) overlay.remove();
}\<close>

  \<open>getElementById\<close> gives the first element in document order with the id, and
  \<open>remove\<close> takes that node, with its subtree, out of its parent.
\<close>

definition getElementById :: "string \<Rightarrow> document \<Rightarrow> element option" where
  "getElementById i doc = find (\<lambda>e. ident e = i) (all_elements doc)"

fun remove_first :: "string \<Rightarrow> node list \<Rightarrow> node list" where
  "remove_first i [] = []"
| "remove_first i (Node e cs # ns) =
     (if ident e = i then ns
      else if find (\<lambda>e. ident e = i) (concat (map elements cs)) \<noteq> None
        then Node e (remove_first i cs) # ns
      else Node e cs # remove_first i ns)"

definition hideLoading :: "document \<Rightarrow> document" where
  "hideLoading doc =
     (case getElementById ''loadingOverlay'' doc of
        None \<Rightarrow> doc
      | Some found \<Rightarrow> remove_first ''loadingOverlay'' doc)"

text \<open>
  What removing one node means: \<open>removed n doc doc'\<close> holds when \<open>doc'\<close> is \<open>doc\<close> without the
  node \<open>n\<close> and its subtree, at one place of the tree, while every other node keeps its
  element, its children and its position among its siblings.
\<close>

inductive removed :: "node \<Rightarrow> node list \<Rightarrow> node list \<Rightarrow> bool" where
  here: "removed n (n # ns) ns"
| later: "removed n ns ns' \<Longrightarrow> removed n (m # ns) (m # ns')"
| inside: "removed n cs cs' \<Longrightarrow> removed n (Node e cs # ns) (Node e cs' # ns)"

code_pred removed .

subsection \<open>An example page\<close>

text \<open>
  A page with a table of three attendance rows, the second of them hidden, and the
  same page while the loading overlay is shown.
\<close>

definition plain :: "string \<Rightarrow> element" where
  "plain tag = \<lparr>tagName = tag, ident = '''', className = '''', dataset = [], display = ''''\<rparr>"

definition attendance_row :: "string \<Rightarrow> string \<Rightarrow> string \<Rightarrow> string \<Rightarrow> node" where
  "attendance_row day status semester shown =
     Node \<lparr>tagName = ''TR'', ident = '''', className = '''',
           dataset = [(''day'', day), (''status'', status), (''semester'', semester)],
           display = shown\<rparr> []"

definition example_rows :: "node list" where
  "example_rows =
     [attendance_row ''Monday'' ''present'' ''1'' '''',
      attendance_row ''Monday'' ''absent'' ''2'' ''none'',
      attendance_row ''Friday'' ''late'' ''1'' '''']"

definition example_page :: document where
  "example_page =
     [Node (plain ''HTML'')
        [Node (plain ''HEAD'') [],
         Node (plain ''BODY'') [Node (plain ''TABLE'') example_rows]]]"

definition example_loading :: document where
  "example_loading =
     [Node (plain ''HTML'')
        [Node (plain ''HEAD'') [],
         Node (plain ''BODY'') [Node (plain ''TABLE'') example_rows, overlay]]]"

text \<open>The page with the overlay in front of the table, as another script may have put it.\<close>

definition example_loading_first :: document where
  "example_loading_first =
     [Node (plain ''HTML'')
        [Node (plain ''HEAD'') [],
         Node (plain ''BODY'') [overlay, Node (plain ''TABLE'') example_rows]]]"

section \<open>Cookies\<close>

text \<open>
  A JavaScript string is a sequence of UTF-16 code units, here natural numbers below
  \<open>65536\<close>; \<open>js\<close> gives the string written by an ASCII literal.
\<close>

type_synonym jsstring = "nat list"

definition js :: "string \<Rightarrow> jsstring" where
  "js str = map of_char str"

subsection \<open>String.prototype.split and trim\<close>

text \<open>\<open>str.split(sep)\<close> for a separator of one code unit: the pieces between the separators.\<close>

fun split :: "nat \<Rightarrow> jsstring \<Rightarrow> jsstring list" where
  "split sep [] = [[]]"
| "split sep (c # cs) =
     (if c = sep then [] # split sep cs
      else (case split sep cs of p # ps \<Rightarrow> (c # p) # ps | [] \<Rightarrow> [[c]]))"

text \<open>The white space and line terminator code units which \<open>trim\<close> strips at both ends.\<close>

definition is_space :: "nat \<Rightarrow> bool" where
  "is_space c =
     (c \<in> {0x09, 0x0A, 0x0B, 0x0C, 0x0D, 0x20, 0xA0, 0x1680, 0x2028, 0x2029, 0x202F, 0x205F,
            0x3000, 0xFEFF} \<or> (0x2000 \<le> c \<and> c \<le> 0x200A))"

definition trim :: "jsstring \<Rightarrow> jsstring" where
  "trim str = rev (dropWhile is_space (rev (dropWhile is_space str)))"

subsection \<open>decodeURIComponent\<close>

text \<open>
  An escape \<open>%XX\<close> is one octet. An octet below \<open>0x80\<close> is a character; an octet with
  \<open>n = 2, 3, 4\<close> leading one bits starts a UTF-8 sequence of \<open>n\<close> escapes, which must encode
  a code point in the shortest form and no surrogate; the code point is appended in
  UTF-16. Everything else throws a URIError.
\<close>

definition hex_digit :: "nat \<Rightarrow> nat option" where
  "hex_digit c =
     (if 0x30 \<le> c \<and> c \<le> 0x39 then Some (c - 0x30)
      else if 0x41 \<le> c \<and> c \<le> 0x46 then Some (c - 0x41 + 10)
      else if 0x61 \<le> c \<and> c \<le> 0x66 then Some (c - 0x61 + 10)
      else None)"

definition hex_octet :: "nat \<Rightarrow> nat \<Rightarrow> nat option" where
  "hex_octet h l =
     (case (hex_digit h, hex_digit l) of (Some a, Some b) \<Rightarrow> Some (16 * a + b) | _ \<Rightarrow> None)"

definition leading_ones :: "nat \<Rightarrow> nat" where
  "leading_ones b =
     (if b < 0x80 then 0 else if b < 0xC0 then 1 else if b < 0xE0 then 2
      else if b < 0xF0 then 3 else if b < 0xF8 then 4 else 5)"

text \<open>The octets of the \<open>n\<close> escapes at the start of a string.\<close>

fun escapes :: "nat \<Rightarrow> jsstring \<Rightarrow> nat list option" where
  "escapes 0 str = Some []"
| "escapes (Suc n) (p # h # l # str) =
     (if p = 0x25 then
        (case hex_octet h l of
           None \<Rightarrow> None
         | Some b \<Rightarrow> map_option ((#) b) (escapes n str))
      else None)"
| "escapes (Suc n) str = None"

definition is_continuation :: "nat \<Rightarrow> bool" where
  "is_continuation b = (0x80 \<le> b \<and> b < 0xC0)"

definition utf8_code_point :: "nat list \<Rightarrow> nat option" where
  "utf8_code_point octets =
     (case octets of
        [a, b] \<Rightarrow>
          (let v = (a - 0xC0) * 0x40 + (b - 0x80)
           in if is_continuation b \<and> 0x80 \<le> v then Some v else None)
      | [a, b, c] \<Rightarrow>
          (let v = (a - 0xE0) * 0x1000 + (b - 0x80) * 0x40 + (c - 0x80)
           in if is_continuation b \<and> is_continuation c \<and> 0x800 \<le> v \<and>
                 \<not> (0xD800 \<le> v \<and> v \<le> 0xDFFF)
              then Some v else None)
      | [a, b, c, d] \<Rightarrow>
          (let v = (a - 0xF0) * 0x40000 + (b - 0x80) * 0x1000 + (c - 0x80) * 0x40 + (d - 0x80)
           in if is_continuation b \<and> is_continuation c \<and> is_continuation d \<and>
                 0x10000 \<le> v \<and> v \<le> 0x10FFFF
              then Some v else None)
      | _ \<Rightarrow> None)"

definition utf16 :: "nat \<Rightarrow> jsstring" where
  "utf16 v =
     (if v < 0x10000 then [v]
      else [0xD800 + (v - 0x10000) div 0x400, 0xDC00 + (v - 0x10000) mod 0x400])"

function decodeURIComponent :: "jsstring \<Rightarrow> error + jsstring" where
  "decodeURIComponent [] = Inr []"
| "decodeURIComponent (c # str) =
     (if c \<noteq> 0x25 then map_sum id ((#) c) (decodeURIComponent str)
      else (case str of
              h # l # str' \<Rightarrow>
                (case hex_octet h l of
                   None \<Rightarrow> Inl URIError
                 | Some b \<Rightarrow>
                     (if leading_ones b = 0 then map_sum id ((#) b) (decodeURIComponent str')
                      else if leading_ones b = 1 \<or> 4 < leading_ones b then Inl URIError
                      else (case escapes (leading_ones b - 1) str' of
                              None \<Rightarrow> Inl URIError
                            | Some bs \<Rightarrow>
                                (case utf8_code_point (b # bs) of
                                   None \<Rightarrow> Inl URIError
                                 | Some v \<Rightarrow>
                                     map_sum id ((@) (utf16 v))
                                       (decodeURIComponent
                                          (drop (3 * (leading_ones b - 1)) str'))))))
            | _ \<Rightarrow> Inl URIError))"
  by pat_completeness auto
termination
  by (relation "measure length") auto

subsection \<open>getCookie\<close>

text \<open>
  \<^verbatim>\<open>function getCookie(name) {
    let cookieValue = null;
    if (document.cookie && document.cookie !== '') {
        const cookies = document.cookie.split(';');
        for (let i = 0; i < cookies.length; i++) {
            const cookie = cookies[i].trim();
            if (cookie.substring(0, name.length + 1) === (name + '=')) {
                cookieValue = decodeURIComponent(cookie.substring(name.length + 1));
                break;
            }
        }
    }
    return cookieValue;
}\<close>

  The function reads \<^verbatim>\<open>document.cookie\<close>, given here as an argument. The result is the
  value, \<open>None\<close> for \<open>null\<close>, or the error that \<open>decodeURIComponent\<close> throws.
\<close>

definition starts_with_name :: "jsstring \<Rightarrow> jsstring \<Rightarrow> bool" where
  "starts_with_name name cookie = (take (length name + 1) cookie = name @ js ''='')"

fun getCookie_loop :: "jsstring \<Rightarrow> jsstring list \<Rightarrow> error + jsstring option" where
  "getCookie_loop name [] = Inr None"
| "getCookie_loop name (entry # cookies) =
     (let cookie = trim entry
      in if starts_with_name name cookie
         then map_sum id Some (decodeURIComponent (drop (length name + 1) cookie))
         else getCookie_loop name cookies)"

definition getCookie :: "jsstring \<Rightarrow> jsstring \<Rightarrow> error + jsstring option" where
  "getCookie document_cookie name =
     (if document_cookie \<noteq> [] then getCookie_loop name (split 0x3B document_cookie)
      else Inr None)"

section \<open>Properties of the comparison operators\<close>

lemma js_lt_irrefl: "\<not> js_lt x x"
  by (cases x) auto

lemma js_ge_iff_not_lt: "x \<noteq> NaN \<Longrightarrow> y \<noteq> NaN \<Longrightarrow> js_ge x y \<longleftrightarrow> \<not> js_lt x y"
  by (simp add: js_ge_def)

lemma js_lt_total: "x \<noteq> NaN \<Longrightarrow> y \<noteq> NaN \<Longrightarrow> js_lt x y \<or> js_lt y x \<or> js_strict_eq x y"
  by (cases x; cases y) auto

lemma js_lt_trans: "js_lt x y \<Longrightarrow> js_lt y z \<Longrightarrow> js_lt x z"
  by (cases x; cases y; cases z) (auto split: if_splits)

lemma not_ge_num_iff: "p \<noteq> NaN \<Longrightarrow> \<not> js_ge p (num i) \<longleftrightarrow> js_lt p (num i)"
  by (simp add: js_ge_def num_def)

section \<open>Properties of rounding\<close>

lemma ilog2_bounds:
  assumes "0 < q"
  shows "2 powi (ilog2 q) \<le> q" and "q < 2 powi (ilog2 q + 1)"
proof -
  have "2 powi (ilog2 q) \<le> q \<and> q < 2 powi (ilog2 q + 1)"
  proof (cases "1 \<le> q")
    case True
    define n where "n = \<lfloor>q\<rfloor>"
    have n: "0 < n" using True by (simp add: n_def)
    from bitlen_bounds [OF n] have b: "2 ^ nat (bitlen n - 1) \<le> n" "n < 2 ^ nat (bitlen n)"
      by auto
    have bl: "0 < bitlen n" using n bitlen_nonneg [of n] bitlen_eq_zero_iff [of n] by linarith
    have e: "ilog2 q = bitlen n - 1" using True by (simp add: ilog2_def n_def)
    have "2 powi (bitlen n - 1) = (of_int (2 ^ nat (bitlen n - 1)) :: rat)"
      using bl by (simp add: power_int_def)
    also have "\<dots> \<le> of_int n" using b(1) by (simp only: of_int_le_iff)
    also have "\<dots> \<le> q" by (simp add: n_def)
    finally have lo: "2 powi (ilog2 q) \<le> q" by (simp add: e)
    have "n + 1 \<le> 2 ^ nat (bitlen n)" using b(2) by simp
    then have "(of_int (n + 1) :: rat) \<le> of_int (2 ^ nat (bitlen n))"
      by (simp only: of_int_le_iff)
    moreover have "q < of_int (n + 1)" unfolding n_def by linarith
    moreover have "2 powi (bitlen n) = (of_int (2 ^ nat (bitlen n)) :: rat)"
      using bl by (simp add: power_int_def)
    ultimately have "q < 2 powi (ilog2 q + 1)" by (simp add: e)
    with lo show ?thesis by simp
  next
    case False
    then have q1: "q < 1" by simp
    define c where "c = \<lceil>1 / q\<rceil>"
    have inv: "1 < 1 / q" using assms q1 by (simp add: field_simps)
    have c2: "2 \<le> c" unfolding c_def using inv by linarith
    define k where "k = bitlen (c - 1)"
    have c1: "0 < c - 1" using c2 by simp
    from bitlen_bounds [OF c1] have b: "2 ^ nat (k - 1) \<le> c - 1" "c - 1 < 2 ^ nat k"
      by (auto simp: k_def)
    have kp: "0 < k" using c1 bitlen_nonneg [of "c - 1"] bitlen_eq_zero_iff [of "c - 1"] unfolding k_def by linarith
    have e: "ilog2 q = - k" using False by (simp add: ilog2_def k_def c_def)
    have "(of_int (c - 1) :: rat) < 1 / q" unfolding c_def by linarith
    moreover have "(of_int (2 ^ nat (k - 1)) :: rat) \<le> of_int (c - 1)"
      using b(1) by (simp only: of_int_le_iff)
    moreover have "(of_int (2 ^ nat (k - 1)) :: rat) = 2 ^ nat (k - 1)" by simp
    ultimately have up: "(2 ^ nat (k - 1) :: rat) < 1 / q" by linarith
    have "c \<le> 2 ^ nat k" using b(2) by simp
    then have "(of_int c :: rat) \<le> of_int (2 ^ nat k)" by (simp only: of_int_le_iff)
    then have "(of_int c :: rat) \<le> 2 ^ nat k" by simp
    moreover have "1 / q \<le> of_int c" unfolding c_def by linarith
    ultimately have lo: "1 / q \<le> (2 ^ nat k :: rat)" by linarith
    have p1: "2 powi (- k) = 1 / (2 ^ nat k :: rat)"
      using kp by (simp add: power_int_def field_simps)
    have p2: "2 powi (1 - k) = 1 / (2 ^ nat (k - 1) :: rat)"
      using kp by (simp add: power_int_def field_simps nat_diff_distrib)
    have "1 / (2 ^ nat k :: rat) \<le> q"
      using lo assms by (simp add: field_simps)
    moreover have "q < 1 / (2 ^ nat (k - 1) :: rat)"
      using up assms by (simp add: field_simps)
    ultimately show ?thesis by (simp add: e p1 p2)
  qed
  then show "2 powi (ilog2 q) \<le> q" and "q < 2 powi (ilog2 q + 1)" by simp_all
qed

lemma rhe_cases: "round_half_even x = \<lfloor>x\<rfloor> \<or> round_half_even x = \<lfloor>x\<rfloor> + 1"
  by (simp add: round_half_even_def Let_def)

lemma rhe_of_int: "round_half_even (of_int n) = n"
  by (simp add: round_half_even_def)

lemma rhe_ge: "of_int n \<le> x \<Longrightarrow> n \<le> round_half_even x"
proof -
  assume "of_int n \<le> x"
  then have "n \<le> \<lfloor>x\<rfloor>" by (simp add: le_floor_iff)
  then show ?thesis using rhe_cases [of x] by linarith
qed

lemma rhe_le: "x \<le> of_int n \<Longrightarrow> round_half_even x \<le> n"
proof (cases "x = of_int n")
  case True
  then show ?thesis by (simp add: rhe_of_int)
next
  case False
  assume "x \<le> of_int n"
  with False have "x < of_int n" by simp
  then have "\<lfloor>x\<rfloor> < n" by (simp add: floor_less_iff)
  then show ?thesis using rhe_cases [of x] by linarith
qed

lemma rhe_mono: "x \<le> y \<Longrightarrow> round_half_even x \<le> round_half_even y"
proof -
  assume xy: "x \<le> y"
  then have fl: "\<lfloor>x\<rfloor> \<le> \<lfloor>y\<rfloor>" by (rule floor_mono)
  show ?thesis
  proof (cases "\<lfloor>x\<rfloor> = \<lfloor>y\<rfloor>")
    case True
    then have "x - of_int \<lfloor>x\<rfloor> \<le> y - of_int \<lfloor>y\<rfloor>" using xy by simp
    then show ?thesis using True
      by (auto simp: round_half_even_def Let_def)
  next
    case False
    with fl have "\<lfloor>x\<rfloor> + 1 \<le> \<lfloor>y\<rfloor>" by simp
    moreover have "\<lfloor>y\<rfloor> \<le> round_half_even y" using rhe_cases [of y] by linarith
    moreover have "round_half_even x \<le> \<lfloor>x\<rfloor> + 1" using rhe_cases [of x] by linarith
    ultimately show ?thesis by linarith
  qed
qed

lemma rhe_error: "\<bar>of_int (round_half_even x) - x\<bar> \<le> 1 / 2"
proof -
  have b: "of_int \<lfloor>x\<rfloor> \<le> x" "x < of_int \<lfloor>x\<rfloor> + 1" by linarith+
  have "round_half_even x = \<lfloor>x\<rfloor> \<and> x - of_int \<lfloor>x\<rfloor> \<le> 1 / 2 \<or>
        round_half_even x = \<lfloor>x\<rfloor> + 1 \<and> 1 / 2 \<le> x - of_int \<lfloor>x\<rfloor>"
    by (auto simp: round_half_even_def Let_def)
  then show ?thesis
  proof
    assume a: "round_half_even x = \<lfloor>x\<rfloor> \<and> x - of_int \<lfloor>x\<rfloor> \<le> 1 / 2"
    then have "of_int (round_half_even x) = (of_int \<lfloor>x\<rfloor> :: rat)" by simp
    with a b show ?thesis by linarith
  next
    assume a: "round_half_even x = \<lfloor>x\<rfloor> + 1 \<and> 1 / 2 \<le> x - of_int \<lfloor>x\<rfloor>"
    then have "of_int (round_half_even x) = (of_int \<lfloor>x\<rfloor> :: rat) + 1" by simp
    with a b show ?thesis by linarith
  qed
qed

lemma rnd_pos: "q \<noteq> 0 \<Longrightarrow>
  rnd q = of_int (round_half_even (q / 2 powi (expo q - 52))) * 2 powi (expo q - 52)"
  by (simp add: rnd_def expo_def Let_def)

lemma ilog2_mono:
  assumes "0 < x" "x \<le> y"
  shows "ilog2 x \<le> ilog2 y"
proof (rule ccontr)
  assume "\<not> ilog2 x \<le> ilog2 y"
  then have "ilog2 y + 1 \<le> ilog2 x" by simp
  then have "(2::rat) powi (ilog2 y + 1) \<le> 2 powi (ilog2 x)"
    by (intro power_int_increasing) simp_all
  moreover have "2 powi (ilog2 x) \<le> x" using assms(1) by (rule ilog2_bounds)
  moreover have "y < 2 powi (ilog2 y + 1)" using assms by (intro ilog2_bounds) simp
  ultimately show False using assms(2) by linarith
qed

lemma expo_mono: "0 < x \<Longrightarrow> x \<le> y \<Longrightarrow> expo x \<le> expo y"
  using ilog2_mono [of x y] by (simp add: expo_def)

lemma pow2_split: "(2::rat) powi (e + 1) = 2 ^ 53 * 2 powi (e - 52)"
proof -
  have eq: "e + 1 = 53 + (e - 52)" by simp
  have "(2::rat) powi (53 + (e - 52)) = 2 powi 53 * 2 powi (e - 52)"
    by (subst power_int_add) simp_all
  then show ?thesis unfolding eq by simp
qed

lemma pow2_split': "(2::rat) powi e = 2 ^ 52 * 2 powi (e - 52)"
proof -
  have eq: "e = 52 + (e - 52)" by simp
  have "(2::rat) powi (52 + (e - 52)) = 2 powi 52 * 2 powi (e - 52)"
    by (subst power_int_add) simp_all
  then show ?thesis by (subst eq) simp
qed

lemma rnd_upper:
  assumes "0 < q"
  shows "rnd q \<le> 2 powi (expo q + 1)"
proof -
  define u where "u = (2::rat) powi (expo q - 52)"
  have u: "0 < u" by (simp add: u_def)
  have "q < 2 powi (ilog2 q + 1)" using assms by (rule ilog2_bounds)
  also have "\<dots> \<le> 2 powi (expo q + 1)"
    by (intro power_int_increasing) (simp_all add: expo_def)
  finally have "q \<le> 2 ^ 53 * u" by (simp add: pow2_split u_def)
  then have "q / u \<le> of_int (2 ^ 53)" using u by (simp add: field_simps)
  then have "round_half_even (q / u) \<le> 2 ^ 53" by (rule rhe_le)
  then have "(of_int (round_half_even (q / u)) :: rat) \<le> of_int (2 ^ 53)"
    by (simp only: of_int_le_iff)
  then have "of_int (round_half_even (q / u)) * u \<le> 2 ^ 53 * u"
    using u by simp
  then show ?thesis using assms by (simp add: rnd_pos pow2_split u_def)
qed

lemma rnd_lower:
  assumes "0 < q" "- 1022 \<le> ilog2 q"
  shows "2 powi (expo q) \<le> rnd q"
proof -
  define u where "u = (2::rat) powi (expo q - 52)"
  have u: "0 < u" by (simp add: u_def)
  have e: "expo q = ilog2 q" using assms(2) by (simp add: expo_def)
  have "2 powi (expo q) \<le> q" unfolding e using assms(1) by (rule ilog2_bounds)
  then have "2 ^ 52 * u \<le> q" by (subst (asm) pow2_split') (simp add: u_def)
  then have "of_int (2 ^ 52) \<le> q / u" using u by (simp add: field_simps)
  then have "2 ^ 52 \<le> round_half_even (q / u)" by (rule rhe_ge)
  then have "(of_int (2 ^ 52) :: rat) \<le> of_int (round_half_even (q / u))"
    by (simp only: of_int_le_iff)
  then have "2 ^ 52 * u \<le> of_int (round_half_even (q / u)) * u"
    using u by simp
  then show ?thesis using assms(1) by (subst pow2_split') (simp add: rnd_pos u_def)
qed

lemma rnd_nonneg: "0 \<le> q \<Longrightarrow> 0 \<le> rnd q"
proof (cases "q = 0")
  case True
  then show ?thesis by (simp add: rnd_def)
next
  case False
  assume "0 \<le> q"
  then have "of_int 0 \<le> q / 2 powi (expo q - 52)" by simp
  then have "0 \<le> round_half_even (q / 2 powi (expo q - 52))" by (rule rhe_ge)
  then show ?thesis using False by (simp add: rnd_pos)
qed

lemma rnd_mono:
  assumes "0 \<le> x" "x \<le> y"
  shows "rnd x \<le> rnd y"
proof (cases "x = 0")
  case True
  then show ?thesis using assms rnd_nonneg [of y] by (simp add: rnd_def)
next
  case False
  with assms have x: "0 < x" and y: "0 < y" by simp_all
  have le: "expo x \<le> expo y" using x assms(2) by (rule expo_mono)
  show ?thesis
  proof (cases "expo x = expo y")
    case True
    define u where "u = (2::rat) powi (expo y - 52)"
    have u: "0 < u" by (simp add: u_def)
    have "x / u \<le> y / u" using assms(2) u by (simp add: divide_right_mono)
    then have "round_half_even (x / u) \<le> round_half_even (y / u)" by (rule rhe_mono)
    then have "(of_int (round_half_even (x / u)) :: rat) \<le> of_int (round_half_even (y / u))"
      by (simp only: of_int_le_iff)
    then have "of_int (round_half_even (x / u)) * u \<le> of_int (round_half_even (y / u)) * u"
      using u by simp
    then show ?thesis using x y True by (simp add: rnd_pos u_def)
  next
    case False
    with le have lt: "expo x + 1 \<le> expo y" by simp
    then have "- 1022 \<le> ilog2 y" by (auto simp: expo_def max_def split: if_splits)
    with y have "2 powi (expo y) \<le> rnd y" by (rule rnd_lower)
    moreover have "rnd x \<le> 2 powi (expo x + 1)" using x by (rule rnd_upper)
    moreover have "(2::rat) powi (expo x + 1) \<le> 2 powi (expo y)"
      using lt by (intro power_int_increasing) simp_all
    ultimately show ?thesis by linarith
  qed
qed

lemma ilog2_unique:
  assumes "2 powi e \<le> q" "q < 2 powi (e + 1)"
  shows "ilog2 q = e"
proof -
  have q: "0 < q" using assms(1) by (rule less_le_trans [rotated]) simp
  have a: "2 powi (ilog2 q) \<le> q" "q < 2 powi (ilog2 q + 1)"
    using q by (rule ilog2_bounds)+
  have "\<not> e + 1 \<le> ilog2 q"
  proof
    assume "e + 1 \<le> ilog2 q"
    then have "(2::rat) powi (e + 1) \<le> 2 powi (ilog2 q)"
      by (intro power_int_increasing) simp_all
    with a(1) assms(2) show False by linarith
  qed
  moreover have "\<not> ilog2 q + 1 \<le> e"
  proof
    assume "ilog2 q + 1 \<le> e"
    then have "(2::rat) powi (ilog2 q + 1) \<le> 2 powi e"
      by (intro power_int_increasing) simp_all
    with a(2) assms(1) show False by linarith
  qed
  ultimately show ?thesis by linarith
qed

lemma rhe_unique:
  assumes "\<bar>x - of_int m\<bar> < 1 / 2"
  shows "round_half_even x = m"
proof -
  have "\<bar>of_int (round_half_even x) - x\<bar> \<le> 1 / 2" by (rule rhe_error)
  with assms have "\<bar>(of_int (round_half_even x) :: rat) - of_int m\<bar> < 1" by linarith
  then have "\<bar>(of_int (round_half_even x - m) :: rat)\<bar> < of_int 1" by simp
  then have "\<bar>round_half_even x - m\<bar> < 1"
    by (simp only: of_int_abs [symmetric] of_int_less_iff)
  then show ?thesis by linarith
qed

lemma rnd_eqI:
  assumes "2 powi e \<le> q" "q < 2 powi (e + 1)" "- 1022 \<le> e"
    and "\<bar>q / 2 powi (e - 52) - of_int m\<bar> < 1 / 2"
  shows "rnd q = of_int m * 2 powi (e - 52)"
proof -
  have q: "q \<noteq> 0" using assms(1) less_le_trans [of 0 "2 powi e" q] by simp
  have "expo q = e" using ilog2_unique [OF assms(1,2)] assms(3) by (simp add: expo_def)
  then show ?thesis using q rhe_unique [OF assms(4)] by (simp add: rnd_pos)
qed

lemma rnd_int:
  assumes "0 \<le> n" "n < 2 ^ 53"
  shows "rnd (of_int n) = of_int n"
proof (cases "n = 0")
  case True
  then show ?thesis by (simp add: rnd_def)
next
  case False
  with assms have n: "1 \<le> n" by simp
  define q :: rat where "q = of_int n"
  have q: "0 < q" "1 \<le> q" using n by (simp_all add: q_def)
  define e where "e = ilog2 q"
  have b: "2 powi e \<le> q" "q < 2 powi (e + 1)" unfolding e_def using q(1) by (rule ilog2_bounds)+
  have e0: "0 \<le> e"
  proof (rule ccontr)
    assume "\<not> 0 \<le> e"
    then have "e + 1 \<le> 0" by simp
    then have "(2::rat) powi (e + 1) \<le> 2 powi 0" by (intro power_int_increasing) simp_all
    with b(2) q(2) show False by simp
  qed
  have e52: "e \<le> 52"
  proof (rule ccontr)
    assume "\<not> e \<le> 52"
    then have "53 \<le> e" by simp
    then have "(2::rat) powi 53 \<le> 2 powi e" by (intro power_int_increasing) simp_all
    moreover have "q < 2 ^ 53" using assms(2) unfolding q_def
      by (metis of_int_less_iff of_int_numeral of_int_power)
    ultimately show False using b(1) by simp
  qed
  define k where "k = nat (52 - e)"
  have ex: "expo q = e" using e0 by (simp add: expo_def e_def)
  have p: "(2::rat) powi (e - 52) = 1 / 2 ^ k"
    using e52 by (simp add: power_int_def k_def field_simps)
  have "q / 2 powi (e - 52) = of_int (n * 2 ^ k)" by (simp add: p q_def)
  then have "round_half_even (q / 2 powi (e - 52)) = n * 2 ^ k" by (simp only: rhe_of_int)
  then have "rnd q = of_int (n * 2 ^ k) * (1 / 2 ^ k)"
    using q(1) by (simp add: rnd_pos ex p)
  then show ?thesis by (simp add: q_def)
qed

lemma rnd_one: "rnd 1 = 1"
  using rnd_int [of 1] by simp

lemma rnd_hundred: "rnd 100 = 100"
  using rnd_int [of 100] by simp

lemma MAX_VALUE_less: "MAX_VALUE < 2 ^ 1024"
  by (simp add: MAX_VALUE_def)

lemma MAX_VALUE_pos: "0 < MAX_VALUE"
  by (simp add: MAX_VALUE_def)

lemma rnd_MAX_succ: "rnd (MAX_VALUE + 1) = MAX_VALUE"
proof -
  have "rnd (MAX_VALUE + 1) = of_int (2 ^ 53 - 1) * 2 powi (1023 - 52)"
    by (rule rnd_eqI) (simp_all add: MAX_VALUE_def)
  then show ?thesis by (simp add: MAX_VALUE_def)
qed

lemma rnd_three_quarters: "rnd (3 / 4) = 3 / 4"
proof -
  have "rnd (3 / 4) = of_int (3 * 2 ^ 51) * 2 powi (- 1 - 52)"
    by (rule rnd_eqI) simp_all
  then show ?thesis by simp
qed

lemma rnd_bound_757: "rnd (757 / 1024) = 757 / 1024"
proof -
  have "rnd (757 / 1024) = of_int (757 * 2 ^ 43) * 2 powi (- 1 - 52)"
    by (rule rnd_eqI) simp_all
  then show ?thesis by simp
qed

section \<open>The colour of an attendance percentage\<close>

lemma js_ge_75_65: "js_ge p (num 75) \<Longrightarrow> js_ge p (num 65)"
  by (cases p) (auto simp: js_ge_def num_def split: if_splits)

text \<open>
  C6, as the code has it. \<open>getAttendanceColor p\<close> is \<open>'success'\<close> exactly when
  \<open>p >= 75\<close> and \<open>'warning'\<close> exactly when \<open>65 <= p < 75\<close>. It is \<open>'danger'\<close> exactly when
  \<open>p < 65\<close> or \<open>p\<close> is NaN: both tests fail on NaN, and the last \<open>return\<close> is reached
  although \<open>NaN < 65\<close> is false. In particular \<open>80\<close>, \<open>70\<close> and \<open>50\<close> give \<open>'success'\<close>,
  \<open>'warning'\<close> and \<open>'danger'\<close>.
\<close>

theorem getAttendanceColor_cases:
  "(getAttendanceColor p = ''success'' \<longleftrightarrow> js_ge p (num 75)) \<and>
   (getAttendanceColor p = ''warning'' \<longleftrightarrow> js_ge p (num 65) \<and> js_lt p (num 75)) \<and>
   (getAttendanceColor p = ''danger'' \<longleftrightarrow> js_lt p (num 65) \<or> p = NaN) \<and>
   getAttendanceColor (num 80) = ''success'' \<and>
   getAttendanceColor (num 70) = ''warning'' \<and>
   getAttendanceColor (num 50) = ''danger''"
proof -
  have s: "getAttendanceColor p = ''success'' \<longleftrightarrow> js_ge p (num 75)"
    by (simp add: getAttendanceColor_def)
  have w: "getAttendanceColor p = ''warning'' \<longleftrightarrow> js_ge p (num 65) \<and> js_lt p (num 75)"
  proof (cases "p = NaN")
    case True
    then show ?thesis by (simp add: getAttendanceColor_def js_ge_def)
  next
    case False
    then show ?thesis
      using js_ge_75_65 [of p] not_ge_num_iff [of p 75]
      by (auto simp: getAttendanceColor_def)
  qed
  have d: "getAttendanceColor p = ''danger'' \<longleftrightarrow> js_lt p (num 65) \<or> p = NaN"
  proof (cases "p = NaN")
    case True
    then show ?thesis by (simp add: getAttendanceColor_def js_ge_def)
  next
    case False
    then show ?thesis
      using js_ge_75_65 [of p] not_ge_num_iff [of p 65]
      by (auto simp: getAttendanceColor_def)
  qed
  have e: "getAttendanceColor (num 80) = ''success''"
    "getAttendanceColor (num 70) = ''warning''"
    "getAttendanceColor (num 50) = ''danger''"
    by (simp_all add: getAttendanceColor_def js_ge_def num_def)
  from s w d e show ?thesis by blast
qed

text \<open>
  The sentence of the specification, with \<open>'danger'\<close> if and only if \<open>p < 65\<close>, fails
  at NaN.
\<close>

theorem getAttendanceColor_NaN:
  "getAttendanceColor NaN = ''danger'' \<and> \<not> js_lt NaN (num 65)"
  by (simp add: getAttendanceColor_def js_ge_def)

section \<open>The cap of the projection loop\<close>

lemma loop_stop:
  "\<not> (js_lt (percentage_of futureAttended futureTotal) targetPercentage \<and> required < 100) \<Longrightarrow>
   calculateRequiredClasses_loop futureTotal futureAttended targetPercentage required = required"
  by (subst calculateRequiredClasses_loop.simps) (simp only: if_False)

lemma loop_step:
  "js_lt (percentage_of futureAttended futureTotal) targetPercentage \<and> required < 100 \<Longrightarrow>
   calculateRequiredClasses_loop futureTotal futureAttended targetPercentage required =
   calculateRequiredClasses_loop (js_inc futureTotal) (js_inc futureAttended) targetPercentage
     (Suc required)"
  by (subst calculateRequiredClasses_loop.simps) simp

lemma calculateRequiredClasses_loop_le:
  "required \<le> 100 \<Longrightarrow>
   calculateRequiredClasses_loop futureTotal futureAttended targetPercentage required \<le> 100"
proof (induction futureTotal futureAttended targetPercentage required
    rule: calculateRequiredClasses_loop.induct)
  case (1 futureTotal futureAttended targetPercentage required)
  show ?case
  proof (cases "js_lt (percentage_of futureAttended futureTotal) targetPercentage \<and> required < 100")
    case True
    then have "Suc required \<le> 100" by simp
    with "1.IH" True show ?thesis by (simp add: loop_step)
  next
    case False
    with "1.prems" show ?thesis by (simp add: loop_stop)
  qed
qed

text \<open>
  C3. \<open>calculateRequiredClasses\<close> is a total function: its loop is defined by a
  recursion that terminates on every triple of numbers because \<open>100 - required\<close>
  decreases with every iteration. The count it returns, which is the number of
  iterations run, is at most \<open>100\<close>.
\<close>

theorem calculateRequiredClasses_le_100:
  "calculateRequiredClasses currentTotal currentAttended targetPercentage \<le> 100"
  unfolding calculateRequiredClasses_def
  by (rule calculateRequiredClasses_loop_le) simp

section \<open>The projection loop\<close>

lemma pos_finite_iff: "pos_finite t \<longleftrightarrow> is_finite t \<and> js_gt t (num 0)"
  by (cases t) (auto simp: pos_finite_def is_finite_def js_gt_def num_def)

lemma js_inc_pos_finite:
  assumes "pos_finite t"
  shows "pos_finite (js_inc t)"
proof -
  from assms obtain a where t: "t = Fin False a" and a: "\<bar>a\<bar> \<le> MAX_VALUE"
    by (cases t) (auto simp: pos_finite_def)
  have p: "0 < \<bar>a\<bar> + 1" by simp
  have up: "rnd (\<bar>a\<bar> + 1) \<le> MAX_VALUE"
    using rnd_mono [of "\<bar>a\<bar> + 1" "MAX_VALUE + 1"] a by (simp add: rnd_MAX_succ)
  have lo: "1 \<le> rnd (\<bar>a\<bar> + 1)"
    using rnd_mono [of 1 "\<bar>a\<bar> + 1"] by (simp add: rnd_one)
  have "val (Fin False a) + val (Fin False 1) = \<bar>a\<bar> + 1" by simp
  then have "js_inc t = fl False (\<bar>a\<bar> + 1)"
    using p unfolding t js_inc_def num_def
    by (simp add: Let_def del: val.simps)
  also have "\<dots> = Fin False (rnd (\<bar>a\<bar> + 1))"
    using up MAX_VALUE_less by (simp add: fl_def Let_def)
  finally show ?thesis using up lo by (simp add: pos_finite_def)
qed

lemma js_inc_pow_pos_finite: "pos_finite t \<Longrightarrow> pos_finite ((js_inc ^^ k) t)"
  by (induction k) (simp_all add: js_inc_pos_finite)

lemma fl_not_NaN: "fl s q \<noteq> NaN"
  by (simp add: fl_def Let_def)

lemma js_inc_not_NaN: "a \<noteq> NaN \<Longrightarrow> js_inc a \<noteq> NaN"
  by (cases a) (auto simp: js_inc_def num_def Let_def fl_not_NaN)

lemma js_inc_pow_not_NaN: "a \<noteq> NaN \<Longrightarrow> (js_inc ^^ k) a \<noteq> NaN"
  by (induction k) (simp_all add: js_inc_not_NaN)

lemma percentage_of_not_NaN:
  assumes "pos_finite t" "a \<noteq> NaN"
  shows "percentage_of a t \<noteq> NaN"
proof -
  from assms(1) obtain q where t: "t = Fin False q" and q: "q \<noteq> 0"
    by (cases t) (auto simp: pos_finite_def)
  have "js_div a t \<noteq> NaN"
    using assms(2) q unfolding t by (cases a) (simp_all add: fl_not_NaN)
  then show ?thesis
    unfolding percentage_of_def num_def by (cases "js_div a t") (simp_all add: fl_not_NaN)
qed

lemma loop_spec:
  fixes ft fa tg :: jsnum and required :: nat
  defines "r \<equiv> calculateRequiredClasses_loop ft fa tg required"
  assumes "required \<le> 100"
  shows "required \<le> r \<and> r \<le> 100 \<and>
    (\<forall>j. j < r - required \<longrightarrow> js_lt (percentage_of ((js_inc ^^ j) fa) ((js_inc ^^ j) ft)) tg) \<and>
    (r < 100 \<longrightarrow> \<not> js_lt (percentage_of ((js_inc ^^ (r - required)) fa) ((js_inc ^^ (r - required)) ft)) tg)"
  using assms(2) unfolding r_def
proof (induction ft fa tg required rule: calculateRequiredClasses_loop.induct)
  case (1 ft fa tg required)
  let ?c = "js_lt (percentage_of fa ft) tg \<and> required < 100"
  show ?case
  proof (cases ?c)
    case False
    then have e: "calculateRequiredClasses_loop ft fa tg required = required"
      by (rule loop_stop)
    show ?thesis unfolding e using False "1.prems" by auto
  next
    case True
    define r' where "r' = calculateRequiredClasses_loop (js_inc ft) (js_inc fa) tg (Suc required)"
    have e: "calculateRequiredClasses_loop ft fa tg required = r'"
      unfolding r'_def using True by (rule loop_step)
    from True have "Suc required \<le> 100" by simp
    from "1.IH" [OF True this]
    have ih: "Suc required \<le> r'" "r' \<le> 100"
      "\<And>j. j < r' - Suc required \<Longrightarrow>
         js_lt (percentage_of ((js_inc ^^ j) (js_inc fa)) ((js_inc ^^ j) (js_inc ft))) tg"
      "r' < 100 \<Longrightarrow> \<not> js_lt (percentage_of ((js_inc ^^ (r' - Suc required)) (js_inc fa))
          ((js_inc ^^ (r' - Suc required)) (js_inc ft))) tg"
      unfolding r'_def by blast+
    have sh: "\<And>j x. (js_inc ^^ j) (js_inc x) = (js_inc ^^ Suc j) x"
      by (simp add: funpow_swap1)
    have d: "r' - required = Suc (r' - Suc required)" using ih(1) by simp
    have a: "\<And>j. j < r' - required \<Longrightarrow>
        js_lt (percentage_of ((js_inc ^^ j) fa) ((js_inc ^^ j) ft)) tg"
    proof -
      fix j assume j: "j < r' - required"
      show "js_lt (percentage_of ((js_inc ^^ j) fa) ((js_inc ^^ j) ft)) tg"
      proof (cases j)
        case 0
        then show ?thesis using True by simp
      next
        case (Suc i)
        then have "i < r' - Suc required" using j by simp
        from ih(3) [OF this] show ?thesis unfolding sh Suc .
      qed
    qed
    have b: "r' < 100 \<Longrightarrow> \<not> js_lt (percentage_of ((js_inc ^^ (r' - required)) fa)
          ((js_inc ^^ (r' - required)) ft)) tg"
      using ih(4) unfolding sh d .
    show ?thesis unfolding e using ih(1,2) a b by auto
  qed
qed

lemma calculateRequiredClasses_least:
  "calculateRequiredClasses t a tg \<le> 100 \<and>
   (\<forall>k < calculateRequiredClasses t a tg. js_lt (projected k a t) tg) \<and>
   (calculateRequiredClasses t a tg < 100 \<longrightarrow>
      \<not> js_lt (projected (calculateRequiredClasses t a tg) a t) tg)"
  using loop_spec [of 0 t a tg] by (simp add: calculateRequiredClasses_def projected_def)

lemma projected_not_NaN:
  assumes "is_finite t" "js_gt t (num 0)" "js_le (num 0) a"
  shows "projected k a t \<noteq> NaN"
proof -
  have "pos_finite t" using assms by (simp add: pos_finite_iff)
  then have "pos_finite ((js_inc ^^ k) t)" by (rule js_inc_pow_pos_finite)
  moreover have "a \<noteq> NaN" using assms(3) by (simp add: js_le_def)
  then have "(js_inc ^^ k) a \<noteq> NaN" by (rule js_inc_pow_not_NaN)
  ultimately show ?thesis unfolding projected_def by (rule percentage_of_not_NaN)
qed

section \<open>Exact and bounded percentages\<close>

lemma fl_int:
  assumes "0 \<le> n" "n < 2 ^ 53"
  shows "fl s (of_int n) = Fin s (of_int n)"
proof -
  have "(of_int n :: rat) < of_int (2 ^ 53)" using assms(2) by (simp only: of_int_less_iff)
  then have "(of_int n :: rat) < 2 ^ 1024" by simp
  then show ?thesis using rnd_int [OF assms] by (simp add: fl_def)
qed

lemma fl_cases: "fl s q = Infty s \<or> (\<exists>r. fl s q = Fin s r)"
  by (simp add: fl_def Let_def)

lemma js_inc_num:
  assumes "- (2 ^ 53) < n" "n < 2 ^ 53 - 1"
  shows "js_inc (num n) = num (n + 1)"
proof -
  consider "n < - 1" | "n = - 1" | "0 \<le> n" by linarith
  then show ?thesis
  proof cases
    case 1
    define q :: rat where "q = of_int (- (n + 1))"
    have qpos: "0 < q" using 1 by (simp add: q_def)
    have r: "val (Fin True (of_int (- n))) + val (Fin False 1) = - q"
      using 1 by (simp add: q_def)
    have "js_add (Fin True (of_int (- n))) (Fin False 1) = fl True q"
      unfolding js_add.simps Let_def r using qpos by simp
    moreover have "fl True q = Fin True q"
      unfolding q_def using 1 assms by (intro fl_int) simp_all
    moreover have "num n = Fin True (of_int (- n))" using 1 by (simp add: num_def)
    moreover have "num (n + 1) = Fin True q" using 1 by (simp add: num_def q_def)
    ultimately show ?thesis by (simp add: js_inc_def num_def)
  next
    case 2
    then show ?thesis by (simp add: js_inc_def num_def)
  next
    case 3
    define q :: rat where "q = of_int (n + 1)"
    have qpos: "0 < q" using 3 by (simp add: q_def)
    have r: "val (Fin False (of_int n)) + val (Fin False 1) = q"
      using 3 by (simp add: q_def)
    have "js_add (Fin False (of_int n)) (Fin False 1) = fl False q"
      unfolding js_add.simps Let_def r using qpos by simp
    moreover have "fl False q = Fin False q"
      unfolding q_def using 3 assms by (intro fl_int) simp_all
    moreover have "num n = Fin False (of_int n)" using 3 by (simp add: num_def)
    moreover have "num (n + 1) = Fin False q" using 3 by (simp add: num_def q_def)
    ultimately show ?thesis by (simp add: js_inc_def num_def)
  qed
qed

lemma js_inc_pow_num:
  "- (2 ^ 53) < n \<Longrightarrow> n + int k < 2 ^ 53 \<Longrightarrow> (js_inc ^^ k) (num n) = num (n + int k)"
proof (induction k)
  case 0
  then show ?case by simp
next
  case (Suc k)
  then have "(js_inc ^^ k) (num n) = num (n + int k)" by simp
  moreover have "js_inc (num (n + int k)) = num (n + int k + 1)"
    using Suc.prems by (intro js_inc_num) simp_all
  ultimately show ?case by (simp add: algebra_simps)
qed

lemma projected_num:
  assumes "- (2 ^ 53) < a" "a + int k < 2 ^ 53" "- (2 ^ 53) < t" "t + int k < 2 ^ 53"
  shows "projected k (num a) (num t) = percentage_of (num (a + int k)) (num (t + int k))"
  using assms by (simp add: projected_def js_inc_pow_num)

lemma percentage_of_num:
  assumes "0 \<le> a" "a \<le> t" "0 < t"
  shows "percentage_of (num a) (num t) = Fin False (rnd (rnd (of_int a / of_int t) * 100))"
    and "0 \<le> rnd (of_int a / of_int t)" and "rnd (of_int a / of_int t) \<le> 1"
    and "rnd (rnd (of_int a / of_int t) * 100) \<le> 100"
proof -
  define q :: rat where "q = of_int a / of_int t"
  have q: "0 \<le> q" "q \<le> 1" using assms by (simp_all add: q_def)
  have r0: "0 \<le> rnd q" using q(1) by (rule rnd_nonneg)
  have r1: "rnd q \<le> 1" using rnd_mono [OF q] by (simp add: rnd_one)
  have "rnd (rnd q * 100) \<le> rnd 100" using r0 r1 by (intro rnd_mono) simp_all
  then have r2: "rnd (rnd q * 100) \<le> 100" by (simp add: rnd_hundred)
  have d: "js_div (num a) (num t) = Fin False (rnd q)"
    using assms r1 by (simp add: num_def fl_def q_def)
  have "js_mul (Fin False (rnd q)) (num 100) = Fin False (rnd (rnd q * 100))"
    using r0 r2 by (simp add: num_def fl_def)
  with d show "percentage_of (num a) (num t) = Fin False (rnd (rnd (of_int a / of_int t) * 100))"
    by (simp add: percentage_of_def q_def)
  from r0 r1 r2 show "0 \<le> rnd (of_int a / of_int t)" "rnd (of_int a / of_int t) \<le> 1"
    "rnd (rnd (of_int a / of_int t) * 100) \<le> 100"
    by (simp_all add: q_def)
qed

lemma percentage_lt:
  assumes "0 \<le> a" "a \<le> t" "0 < t"
    and "of_int a / of_int t \<le> c" "rnd c = c"
    and "c * 100 \<le> of_int d" "0 \<le> d" "d < 2 ^ 53" "d < T"
  shows "js_lt (percentage_of (num a) (num t)) (num T)"
proof -
  define q :: rat where "q = of_int a / of_int t"
  have q: "0 \<le> q" using assms(1,3) by (simp add: q_def)
  have "rnd q \<le> rnd c" using q assms(4) unfolding q_def by (intro rnd_mono) simp_all
  then have r1: "rnd q \<le> c" by (simp add: assms(5))
  have r0: "0 \<le> rnd q" using q by (rule rnd_nonneg)
  have "rnd (rnd q * 100) \<le> rnd (of_int d)"
    using r0 r1 assms(6) by (intro rnd_mono) simp_all
  then have "rnd (rnd q * 100) \<le> of_int d" using rnd_int [OF assms(7,8)] by simp
  moreover have "(of_int d :: rat) < of_int T" using assms(9) by (simp only: of_int_less_iff)
  moreover have "0 \<le> rnd (rnd q * 100)" using r0 by (intro rnd_nonneg) simp
  moreover have "0 < T" using assms(7,9) by simp
  ultimately show ?thesis
    unfolding percentage_of_num(1) [OF assms(1-3)] q_def [symmetric]
    by (simp add: num_def)
qed

lemma percentage_ge:
  assumes "0 \<le> a" "a \<le> t" "0 < t"
    and "c \<le> of_int a / of_int t" "rnd c = c" "0 \<le> c"
    and "of_int d \<le> c * 100" "0 \<le> d" "d < 2 ^ 53" "T \<le> d"
  shows "\<not> js_lt (percentage_of (num a) (num t)) (num T)"
proof -
  define q :: rat where "q = of_int a / of_int t"
  have "rnd c \<le> rnd q" using assms(4,6) unfolding q_def by (intro rnd_mono) simp_all
  then have r1: "c \<le> rnd q" by (simp add: assms(5))
  have "rnd (of_int d) \<le> rnd (rnd q * 100)"
    using r1 assms(7,8) by (intro rnd_mono) simp_all
  then have "of_int d \<le> rnd (rnd q * 100)" using rnd_int [OF assms(8,9)] by simp
  moreover have "(of_int T :: rat) \<le> of_int d" using assms(10) by (simp only: of_int_le_iff)
  moreover have "0 \<le> rnd (rnd q * 100)"
    using r1 assms(6) by (intro rnd_nonneg) simp
  ultimately show ?thesis
    unfolding percentage_of_num(1) [OF assms(1-3)] q_def [symmetric]
    by (simp add: num_def)
qed

lemma js_lt_negative:
  assumes "x = Infty True \<or> (\<exists>y. x = Fin True y)" "0 < T"
  shows "js_lt x (num T)"
  using assms by (auto simp: num_def)

lemma js_mul_negative:
  assumes "x = Infty True \<or> (\<exists>y. x = Fin True y)"
  shows "js_mul x (num 100) = Infty True \<or> (\<exists>y. js_mul x (num 100) = Fin True y)"
  using assms
proof
  assume "x = Infty True"
  then show ?thesis by (simp add: num_def)
next
  assume "\<exists>y. x = Fin True y"
  then obtain y where "x = Fin True y" ..
  then have "js_mul x (num 100) = fl True (\<bar>y\<bar> * 100)" by (simp add: num_def)
  then show ?thesis using fl_cases [of True "\<bar>y\<bar> * 100"] by simp
qed

lemma percentage_neg:
  assumes "a < 0" "0 < t" "0 < T"
  shows "js_lt (percentage_of (num a) (num t)) (num T)"
proof -
  have "js_div (num a) (num t) = fl True (of_int (- a) / of_int t)"
    using assms by (simp add: num_def)
  then have "js_div (num a) (num t) = Infty True \<or> (\<exists>x. js_div (num a) (num t) = Fin True x)"
    using fl_cases [of True "of_int (- a) / of_int t"] by simp
  then show ?thesis
    unfolding percentage_of_def using assms(3)
    by (intro js_lt_negative js_mul_negative)
qed

lemma calculateRequiredClasses_eqI:
  assumes "k \<le> 100" "\<And>j. j < k \<Longrightarrow> js_lt (projected j a t) tg"
    and "k < 100 \<Longrightarrow> \<not> js_lt (projected k a t) tg"
  shows "calculateRequiredClasses t a tg = k"
proof -
  define r where "r = calculateRequiredClasses t a tg"
  have l: "r \<le> 100" "\<And>j. j < r \<Longrightarrow> js_lt (projected j a t) tg"
    "r < 100 \<Longrightarrow> \<not> js_lt (projected r a t) tg"
    using calculateRequiredClasses_least [of t a tg] unfolding r_def by blast+
  have "\<not> r < k"
  proof
    assume "r < k"
    with assms(1) have "r < 100" by simp
    with l(3) assms(2) \<open>r < k\<close> show False by blast
  qed
  moreover have "\<not> k < r"
  proof
    assume "k < r"
    with l(1) have "k < 100" by simp
    with assms(3) l(2) \<open>k < r\<close> show False by blast
  qed
  ultimately show ?thesis unfolding r_def by simp
qed

lemma required_20_14_75: "calculateRequiredClasses (num 20) (num 14) (num 75) = 4"
proof (rule calculateRequiredClasses_eqI)
  show "(4::nat) \<le> 100" by simp
next
  fix j :: nat assume j: "j < 4"
  have "projected j (num 14) (num 20) = percentage_of (num (14 + int j)) (num (20 + int j))"
    using j by (intro projected_num) simp_all
  moreover have "js_lt (percentage_of (num (14 + int j)) (num (20 + int j))) (num 75)"
    using j by (intro percentage_lt [where c = "757 / 1024" and d = 74])
      (simp_all add: rnd_bound_757 field_simps)
  ultimately show "js_lt (projected j (num 14) (num 20)) (num 75)" by simp
next
  have "projected 4 (num 14) (num 20) = percentage_of (num (14 + int 4)) (num (20 + int 4))"
    by (intro projected_num) simp_all
  moreover have "\<not> js_lt (percentage_of (num 18) (num 24)) (num 75)"
    by (intro percentage_ge [where c = "3 / 4" and d = 75])
      (simp_all add: rnd_three_quarters)
  ultimately show "\<not> js_lt (projected 4 (num 14) (num 20)) (num 75)" by simp
qed

section \<open>Results of the projection\<close>

lemma js_lt_NaN_right: "\<not> js_lt x NaN"
  by (cases x) simp_all

lemma rnd_bound_147: "rnd (147 / 256) = 147 / 256"
proof -
  have "rnd (147 / 256) = of_int (147 * 2 ^ 45) * 2 powi (- 1 - 52)"
    by (rule rnd_eqI) simp_all
  then show ?thesis by simp
qed

lemma rnd_57_percent: "rnd (57 / 100) = 5134103575202365 / 2 ^ 53"
proof -
  have "rnd (57 / 100) = of_int 5134103575202365 * 2 powi (- 1 - 52)"
    by (rule rnd_eqI) simp_all
  then show ?thesis by simp
qed

lemma rnd_57_product: "rnd (5134103575202365 / 2 ^ 53 * 100) = 8022036836253695 / 2 ^ 47"
proof -
  have "rnd (5134103575202365 / 2 ^ 53 * 100) = of_int 8022036836253695 * 2 powi (5 - 52)"
    by (rule rnd_eqI) simp_all
  then show ?thesis by simp
qed

lemma required_100_57_57: "calculateRequiredClasses (num 100) (num 57) (num 57) = 1"
proof (rule calculateRequiredClasses_eqI)
  show "(1::nat) \<le> 100" by simp
next
  fix j :: nat assume "j < 1"
  then have j: "j = 0" by simp
  have r: "rnd (rnd (57 / 100) * 100) = 8022036836253695 / 2 ^ 47"
    unfolding rnd_57_percent by (rule rnd_57_product)
  have "percentage_of (num 57) (num 100) = Fin False (rnd (rnd (of_int 57 / of_int 100) * 100))"
    by (rule percentage_of_num(1)) simp_all
  then have "percentage_of (num 57) (num 100) = Fin False (rnd (rnd (57 / 100) * 100))"
    by simp
  then have "percentage_of (num 57) (num 100) = Fin False (8022036836253695 / 2 ^ 47)"
    by (simp only: r)
  then show "js_lt (projected j (num 57) (num 100)) (num 57)"
    unfolding j by (simp add: projected_def num_def)
next
  have "projected 1 (num 57) (num 100) = percentage_of (num (57 + int 1)) (num (100 + int 1))"
    by (intro projected_num) simp_all
  moreover have "\<not> js_lt (percentage_of (num 58) (num 101)) (num 57)"
    by (intro percentage_ge [where c = "147 / 256" and d = 57])
      (simp_all add: rnd_bound_147)
  ultimately show "\<not> js_lt (projected 1 (num 57) (num 100)) (num 57)" by simp
qed

lemma required_0_minus5_75: "calculateRequiredClasses (num 0) (num (- 5)) (num 75) = 20"
proof (rule calculateRequiredClasses_eqI)
  show "(20::nat) \<le> 100" by simp
next
  fix j :: nat assume j: "j < 20"
  show "js_lt (projected j (num (- 5)) (num 0)) (num 75)"
  proof (cases "j = 0")
    case True
    then show ?thesis by (simp add: projected_def percentage_of_def num_def)
  next
    case False
    have p: "projected j (num (- 5)) (num 0) = percentage_of (num (- 5 + int j)) (num (0 + int j))"
      using j by (intro projected_num) simp_all
    show ?thesis
    proof (cases "j < 5")
      case True
      then have "js_lt (percentage_of (num (- 5 + int j)) (num (0 + int j))) (num 75)"
        using False by (intro percentage_neg) simp_all
      with p show ?thesis by simp
    next
      case ge: False
      then have "js_lt (percentage_of (num (- 5 + int j)) (num (0 + int j))) (num 75)"
        using j by (intro percentage_lt [where c = "757 / 1024" and d = 74])
          (simp_all add: rnd_bound_757 field_simps)
      with p show ?thesis by simp
    qed
  qed
next
  have "projected 20 (num (- 5)) (num 0) = percentage_of (num (- 5 + int 20)) (num (0 + int 20))"
    by (intro projected_num) simp_all
  moreover have "\<not> js_lt (percentage_of (num 15) (num 20)) (num 75)"
    by (intro percentage_ge [where c = "3 / 4" and d = 75])
      (simp_all add: rnd_three_quarters)
  ultimately show "\<not> js_lt (projected 20 (num (- 5)) (num 0)) (num 75)" by simp
qed

lemma required_stops_at_once:
  "\<not> js_lt (percentage_of a t) tg \<Longrightarrow> calculateRequiredClasses t a tg = 0"
  unfolding calculateRequiredClasses_def by (simp add: loop_stop)

text \<open>
  C1, as the code has it. For a finite \<open>currentTotal > 0\<close>, \<open>0 <= currentAttended <=
  currentTotal\<close> and a target that is not NaN, \<open>calculateRequiredClasses\<close> returns the
  least number \<open>k\<close> of further attended classes after which the percentage, computed in
  binary64 from the counts incremented \<open>k\<close> times, is \<open>>=\<close> the target: no smaller \<open>k\<close>
  reaches the target, and the returned \<open>k\<close> reaches it unless it is the cap \<open>100\<close>. In
  particular \<open>calculateRequiredClasses(20, 14, 75)\<close> is \<open>4\<close>.
\<close>

theorem calculateRequiredClasses_minimal:
  assumes "is_finite currentTotal" and "js_gt currentTotal (num 0)"
    and "js_le (num 0) currentAttended" and "js_le currentAttended currentTotal"
    and "targetPercentage \<noteq> NaN"
  shows "calculateRequiredClasses currentTotal currentAttended targetPercentage \<le> 100 \<and>
    (\<forall>k < calculateRequiredClasses currentTotal currentAttended targetPercentage.
       \<not> js_ge (projected k currentAttended currentTotal) targetPercentage) \<and>
    (calculateRequiredClasses currentTotal currentAttended targetPercentage < 100 \<longrightarrow>
       js_ge (projected (calculateRequiredClasses currentTotal currentAttended targetPercentage)
         currentAttended currentTotal) targetPercentage) \<and>
    calculateRequiredClasses (num 20) (num 14) (num 75) = 4"
proof -
  have n: "\<And>k. projected k currentAttended currentTotal \<noteq> NaN"
    using assms(1-3) by (rule projected_not_NaN)
  have g: "\<And>k. js_ge (projected k currentAttended currentTotal) targetPercentage \<longleftrightarrow>
      \<not> js_lt (projected k currentAttended currentTotal) targetPercentage"
    using n assms(5) by (simp add: js_ge_def)
  show ?thesis
    using calculateRequiredClasses_least [of currentTotal currentAttended targetPercentage]
      required_20_14_75
    unfolding g by blast
qed

text \<open>The theorem at \<open>(20, 14, 75)\<close>: four more classes reach 75 percent, three do not.\<close>

theorem calculateRequiredClasses_minimal_witness:
  "is_finite (num 20) \<and> js_gt (num 20) (num 0) \<and> js_le (num 0) (num 14) \<and>
   js_le (num 14) (num 20) \<and>
   calculateRequiredClasses (num 20) (num 14) (num 75) = 4 \<and>
   js_ge (projected 4 (num 14) (num 20)) (num 75) \<and>
   \<not> js_ge (projected 3 (num 14) (num 20)) (num 75)"
proof -
  have h: "is_finite (num 20)" "js_gt (num 20) (num 0)" "js_le (num 0) (num 14)"
    "js_le (num 14) (num 20)" "num 75 \<noteq> NaN"
    by (simp_all add: is_finite_def js_gt_def js_le_def num_def MAX_VALUE_def)
  have r: "calculateRequiredClasses (num 20) (num 14) (num 75) = 4"
    by (rule required_20_14_75)
  from calculateRequiredClasses_minimal [OF h] h r show ?thesis
    by simp
qed

text \<open>
  The specification's example fails: on \<open>(20, 14, 75)\<close> the result is \<open>4\<close>, not \<open>2\<close>. A NaN
  target and an infinite total stop the loop at once although \<open>>=\<close> does not hold, and on
  \<open>(100, 57, 57)\<close> the binary64 product \<open>57 / 100 * 100\<close> lies below \<open>57\<close>, so that one
  more class is asked for.
\<close>

theorem calculateRequiredClasses_example:
  "calculateRequiredClasses (num 20) (num 14) (num 75) = 4 \<and>
   calculateRequiredClasses (num 20) (num 14) (num 75) \<noteq> 2 \<and>
   calculateRequiredClasses (num 20) (num 14) NaN = 0 \<and>
   \<not> js_ge (percentage_of (num 14) (num 20)) NaN \<and>
   js_gt (Infty False) (num 0) \<and> js_le (num 0) (Infty False) \<and>
   js_le (Infty False) (Infty False) \<and>
   calculateRequiredClasses (Infty False) (Infty False) (num 75) = 0 \<and>
   \<not> js_ge (percentage_of (Infty False) (Infty False)) (num 75) \<and>
   calculateRequiredClasses (num 100) (num 57) (num 57) = 1 \<and>
   (57 :: rat) / 100 * 100 \<ge> 57"
proof -
  have a: "calculateRequiredClasses (num 20) (num 14) NaN = 0"
    by (rule required_stops_at_once) (rule js_lt_NaN_right)
  have b: "calculateRequiredClasses (Infty False) (Infty False) (num 75) = 0"
    by (rule required_stops_at_once) (simp add: percentage_of_def)
  have c: "js_gt (Infty False) (num 0)" "js_le (num 0) (Infty False)"
    "js_le (Infty False) (Infty False)"
    "\<not> js_ge (percentage_of (num 14) (num 20)) NaN"
    "\<not> js_ge (percentage_of (Infty False) (Infty False)) (num 75)"
    by (simp_all add: js_gt_def js_le_def js_ge_def num_def percentage_of_def)
  show ?thesis
    using a b c required_20_14_75 required_100_57_57 by simp
qed

lemma required_negzero_5_75: "calculateRequiredClasses (Fin True 0) (num 5) (num 75) = 1"
proof (rule calculateRequiredClasses_eqI)
  show "(1::nat) \<le> 100" by simp
next
  fix j :: nat assume "j < 1"
  then have j: "j = 0" by simp
  show "js_lt (projected j (num 5) (Fin True 0)) (num 75)"
    unfolding j by (simp add: projected_def percentage_of_def num_def)
next
  have t: "js_inc (Fin True 0) = num 1"
    using fl_int [of 1 False] by (simp add: js_inc_def num_def)
  have a: "js_inc (num 5) = num 6" using js_inc_num [of 5] by simp
  have d: "js_div (num 6) (num 1) = Fin False 6"
    using fl_int [of 6 False] by (simp add: num_def)
  have "js_mul (Fin False 6) (num 100) = Fin False 600"
    using fl_int [of 600 False] by (simp add: num_def)
  then have "percentage_of (num 6) (num 1) = Fin False 600"
    by (simp add: percentage_of_def d)
  then have p: "projected 1 (num 5) (Fin True 0) = Fin False 600"
    by (simp add: projected_def t a)
  show "\<not> js_lt (projected 1 (num 5) (Fin True 0)) (num 75)"
    unfolding p by (simp add: num_def)
qed

text \<open>
  C10, as the code has it. \<open>currentTotal === 0\<close> holds of both zeros of the numbers, \<open>+0\<close>
  (which is \<open>num 0\<close>) and \<open>-0\<close>. With the total \<open>+0\<close> and a \<open>currentAttended\<close> that is not below
  zero (a zero, positive, \<open>Infinity\<close> or NaN), and with the total \<open>-0\<close> and a \<open>currentAttended\<close>
  that is not above zero (a zero, negative, \<open>-Infinity\<close> or NaN), the quotient is NaN or
  \<open>+Infinity\<close>, the comparison with any target is false, the loop body never runs and the
  result is \<open>0\<close>.
\<close>

theorem calculateRequiredClasses_zero_total:
  assumes "js_strict_eq currentTotal (num 0)"
    and "currentTotal = num 0 \<longrightarrow> \<not> js_lt currentAttended (num 0)"
    and "currentTotal \<noteq> num 0 \<longrightarrow> \<not> js_gt currentAttended (num 0)"
  shows "calculateRequiredClasses currentTotal currentAttended targetPercentage = 0"
proof -
  from assms(1) obtain s where t: "currentTotal = Fin s 0"
    by (cases currentTotal) (auto simp: num_def split: if_splits)
  have "\<not> js_lt (percentage_of currentAttended currentTotal) targetPercentage"
  proof (cases s)
    case False
    then have "\<not> js_lt currentAttended (num 0)" using assms(2) t by (simp add: num_def)
    then show ?thesis unfolding t using False
      by (cases currentAttended; cases targetPercentage)
        (auto simp: percentage_of_def num_def split: if_splits)
  next
    case True
    then have "\<not> js_gt currentAttended (num 0)" using assms(3) t by (simp add: num_def)
    then show ?thesis unfolding t using True
      by (cases currentAttended; cases targetPercentage)
        (auto simp: percentage_of_def num_def js_gt_def split: if_splits)
  qed
  then show ?thesis by (rule required_stops_at_once)
qed

text \<open>
  The theorem at the total \<open>+0\<close> with a positive and with a NaN \<open>currentAttended\<close>, and at
  the total \<open>-0\<close> with a negative one.
\<close>

theorem calculateRequiredClasses_zero_total_witness:
  "js_strict_eq (num 0) (num 0) \<and> \<not> js_lt (num 7) (num 0) \<and>
   calculateRequiredClasses (num 0) (num 7) (num 75) = 0 \<and>
   percentage_of (num 7) (num 0) = Infty False \<and>
   \<not> js_lt NaN (num 0) \<and> calculateRequiredClasses (num 0) NaN (num 75) = 0 \<and>
   js_strict_eq (Fin True 0) (num 0) \<and> Fin True 0 \<noteq> num 0 \<and>
   \<not> js_gt (num (- 7)) (num 0) \<and>
   calculateRequiredClasses (Fin True 0) (num (- 7)) (num 75) = 0 \<and>
   percentage_of (num (- 7)) (Fin True 0) = Infty False"
proof -
  have h: "js_strict_eq (num 0) (num 0)" "\<not> js_lt (num 7) (num 0)" "\<not> js_lt NaN (num 0)"
    "js_strict_eq (Fin True 0) (num 0)" "Fin True 0 \<noteq> num 0" "\<not> js_gt (num (- 7)) (num 0)"
    by (simp_all add: num_def js_gt_def)
  have p: "percentage_of (num 7) (num 0) = Infty False"
    "percentage_of (num (- 7)) (Fin True 0) = Infty False"
    by (simp_all add: percentage_of_def num_def)
  from calculateRequiredClasses_zero_total [of "num 0" "num 7" "num 75"]
    calculateRequiredClasses_zero_total [of "num 0" NaN "num 75"]
    calculateRequiredClasses_zero_total [of "Fin True 0" "num (- 7)" "num 75"] h p
  show ?thesis by simp
qed

text \<open>
  In the other cases the quotient is \<open>-Infinity\<close>, which is below every finite target, and
  the loop runs: \<open>calculateRequiredClasses(0, -5, 75)\<close> is \<open>20\<close>, and
  \<open>calculateRequiredClasses(-0, 5, 75)\<close> is \<open>1\<close>, although \<open>-0 === 0\<close>.
\<close>

theorem calculateRequiredClasses_zero_total_negative:
  "calculateRequiredClasses (num 0) (num (- 5)) (num 75) = 20 \<and>
   percentage_of (num (- 5)) (num 0) = Infty True \<and>
   js_lt (Infty True) (num 75) \<and>
   js_strict_eq (Fin True 0) (num 0) \<and>
   calculateRequiredClasses (Fin True 0) (num 5) (num 75) = 1 \<and>
   percentage_of (num 5) (Fin True 0) = Infty True"
  using required_0_minus5_75 required_negzero_5_75 by (simp add: percentage_of_def num_def)

section \<open>Decimal numerals and the attendance percentage\<close>

lemma digit_cases:
  "0 \<le> d \<Longrightarrow> d < 10 \<Longrightarrow>
   d = 0 \<or> d = 1 \<or> d = 2 \<or> d = 3 \<or> d = 4 \<or> d = 5 \<or> d = 6 \<or> d = 7 \<or> d = 8 \<or> d = (9::int)"
  by presburger

lemma is_digit_digit_char: "0 \<le> d \<Longrightarrow> d < 10 \<Longrightarrow> is_digit (digit_char d)"
  by (drule (1) digit_cases) (auto simp: digit_char_def is_digit_def)

lemma digit_value_digit_char: "0 \<le> d \<Longrightarrow> d < 10 \<Longrightarrow> digit_value (digit_char d) = d"
  by (drule (1) digit_cases) (auto simp: digit_char_def digit_value_def)

lemma is_digit_not_point: "is_digit c \<Longrightarrow> c \<noteq> CHR ''.'' \<and> c \<noteq> CHR ''-''"
  by (auto simp: is_digit_def)

lemma foldl_digits:
  "foldl (\<lambda>a c. 10 * a + digit_value c) acc ds = acc * 10 ^ length ds + digits_number ds"
proof (induction ds arbitrary: acc rule: rev_induct)
  case Nil
  then show ?case by (simp add: digits_number_def)
next
  case (snoc c ds)
  show ?case
    using snoc [of acc] snoc [of 0]
    by (simp add: digits_number_def algebra_simps)
qed

lemma digits_number_append:
  "digits_number (a @ b) = digits_number a * 10 ^ length b + digits_number b"
  unfolding digits_number_def foldl_append
  using foldl_digits [of "foldl (\<lambda>a c. 10 * a + digit_value c) 0 a" b]
  by (simp add: digits_number_def)

lemma digits_number_zeros: "digits_number (replicate z CHR ''0'') = 0"
  by (induction z) (simp_all add: digits_number_def digit_value_def)

lemma decimal_props:
  "0 \<le> n \<Longrightarrow> decimal n \<noteq> [] \<and> list_all is_digit (decimal n) \<and> digits_number (decimal n) = n"
proof (induction n rule: decimal.induct)
  case (1 n)
  show ?case
  proof (cases "n < 10")
    case True
    then have "decimal n = [digit_char n]" by (subst decimal.simps) simp
    then show ?thesis using True "1.prems"
      by (simp add: is_digit_digit_char digit_value_digit_char digits_number_def)
  next
    case False
    then have e: "decimal n = decimal (n div 10) @ [digit_char (n mod 10)]"
      by (subst decimal.simps) simp
    have "0 \<le> n div 10" using "1.prems" by simp
    from "1.IH" [OF False this]
    have ih: "list_all is_digit (decimal (n div 10))" "digits_number (decimal (n div 10)) = n div 10"
      by simp_all
    have d: "0 \<le> n mod 10" "n mod 10 < 10" by simp_all
    have "digits_number (decimal n) = (n div 10) * 10 + n mod 10"
      unfolding e digits_number_append ih(2)
      by (simp add: digits_number_def digit_value_digit_char [OF d])
    then show ?thesis
      unfolding e using ih(1) is_digit_digit_char [OF d] by simp
  qed
qed

lemma is_digit_zero: "is_digit CHR ''0''"
  by (simp add: is_digit_def)

lemma takeWhile_digits:
  "list_all is_digit a \<Longrightarrow> takeWhile (\<lambda>c. c \<noteq> CHR ''.'') (a @ CHR ''.'' # b) = a"
  by (induction a) (auto dest: is_digit_not_point)

lemma hd_digit: "a \<noteq> [] \<Longrightarrow> list_all is_digit a \<Longrightarrow> hd a \<noteq> CHR ''-''"
  by (cases a) (auto dest: is_digit_not_point)

lemma decimal_value_point:
  assumes "a \<noteq> []" "list_all is_digit a" "list_all is_digit b"
  shows "decimal_value (a @ ''.'' @ b) =
    Some (of_int (digits_number a) + of_int (digits_number b) / 10 ^ length b)"
proof -
  have t: "takeWhile (\<lambda>c. c \<noteq> CHR ''.'') (a @ CHR ''.'' # b) = a"
    using assms(2) by (rule takeWhile_digits)
  show ?thesis
    using assms hd_digit [OF assms(1,2)]
    by (simp add: decimal_value_def Let_def t digits_value_def digits_number_def)
qed

lemma decimal_value_minus:
  assumes "a \<noteq> []" "list_all is_digit a" "list_all is_digit b"
  shows "decimal_value (''-'' @ a @ ''.'' @ b) =
    Some (- (of_int (digits_number a) + of_int (digits_number b) / 10 ^ length b))"
proof -
  have t: "takeWhile (\<lambda>c. c \<noteq> CHR ''.'') (a @ CHR ''.'' # b) = a"
    using assms(2) by (rule takeWhile_digits)
  show ?thesis
    using assms
    by (simp add: decimal_value_def Let_def t digits_value_def digits_number_def)
qed

lemma fixed_digits_split:
  assumes "0 \<le> n" "0 < f"
  shows "\<exists>a b. fixed_digits n f = a @ ''.'' @ b \<and> a \<noteq> [] \<and> list_all is_digit a \<and>
    list_all is_digit b \<and> length b = f \<and>
    digits_number a * 10 ^ f + digits_number b = n"
proof -
  note p = decimal_props [OF assms(1)]
  define m where "m = (if length (decimal n) \<le> f
      then replicate (f + 1 - length (decimal n)) CHR ''0'' @ decimal n else decimal n)"
  have m1: "list_all is_digit m" using p by (simp add: m_def is_digit_zero list_all_iff)
  have m2: "digits_number m = n"
    using p by (simp add: m_def digits_number_append digits_number_zeros)
  have m3: "f < length m" by (auto simp: m_def)
  define a where "a = take (length m - f) m"
  define b where "b = drop (length m - f) m"
  have ab: "m = a @ b" by (simp add: a_def b_def)
  have lb: "length b = f" using m3 by (simp add: b_def)
  have "length a = length m - f" by (simp add: a_def)
  then have an: "a \<noteq> []" using m3 by auto
  have dg: "list_all is_digit a" "list_all is_digit b"
    using m1 unfolding ab by simp_all
  have v: "digits_number a * 10 ^ f + digits_number b = n"
    using m2 unfolding ab digits_number_append lb .
  have "fixed_digits n f = a @ ''.'' @ b"
    using assms(2) by (simp add: fixed_digits_def Let_def m_def a_def b_def)
  with an dg lb v show ?thesis by blast
qed

lemma decimal_value_fixed_digits:
  assumes "0 \<le> n" "0 < f"
  shows "decimal_value (fixed_digits n f) = Some (of_int n / 10 ^ f)"
    and "decimal_value (''-'' @ fixed_digits n f) = Some (- (of_int n / 10 ^ f))"
proof -
  from fixed_digits_split [OF assms] obtain a b where
    s: "fixed_digits n f = a @ ''.'' @ b" "a \<noteq> []" "list_all is_digit a" "list_all is_digit b"
      "length b = f" "digits_number a * 10 ^ f + digits_number b = n"
    by blast
  have "(of_int n :: rat) = of_int (digits_number a) * 10 ^ f + of_int (digits_number b)"
    unfolding s(6) [symmetric] by simp
  then have v: "(of_int n :: rat) / 10 ^ f =
      of_int (digits_number a) + of_int (digits_number b) / 10 ^ length b"
    by (simp add: s(5) field_simps)
  show "decimal_value (fixed_digits n f) = Some (of_int n / 10 ^ f)"
    unfolding s(1) v by (rule decimal_value_point) (fact s)+
  show "decimal_value (''-'' @ fixed_digits n f) = Some (- (of_int n / 10 ^ f))"
    unfolding s(1) v by (rule decimal_value_minus) (fact s)+
qed

lemma percentage_range:
  assumes "qt \<noteq> 0" "\<bar>qa\<bar> \<le> \<bar>qt\<bar>"
  shows "\<exists>r. percentage_of (Fin sa qa) (Fin st qt) = Fin (sa \<noteq> st) r \<and> 0 \<le> r \<and> r \<le> 100 \<and>
    (qa = 0 \<longrightarrow> r = 0)"
proof -
  define q :: rat where "q = \<bar>qa\<bar> / \<bar>qt\<bar>"
  have q: "0 \<le> q" "q \<le> 1" using assms by (simp_all add: q_def)
  have r0: "0 \<le> rnd q" using q(1) by (rule rnd_nonneg)
  have r1: "rnd q \<le> 1" using rnd_mono [OF q] by (simp add: rnd_one)
  have p0: "0 \<le> rnd (rnd q * 100)" using r0 by (intro rnd_nonneg) simp
  have "rnd (rnd q * 100) \<le> rnd 100" using r0 r1 by (intro rnd_mono) simp_all
  then have p1: "rnd (rnd q * 100) \<le> 100" by (simp add: rnd_hundred)
  have d: "js_div (Fin sa qa) (Fin st qt) = Fin (sa \<noteq> st) (rnd q)"
    using assms(1) r1 by (simp add: fl_def q_def)
  have "js_mul (Fin (sa \<noteq> st) (rnd q)) (num 100) = Fin (sa \<noteq> st) (rnd (rnd q * 100))"
    using r0 p1 by (simp add: num_def fl_def)
  with d have e: "percentage_of (Fin sa qa) (Fin st qt) = Fin (sa \<noteq> st) (rnd (rnd q * 100))"
    by (simp add: percentage_of_def)
  have "qa = 0 \<longrightarrow> rnd (rnd q * 100) = 0" by (simp add: q_def rnd_def)
  with e p0 p1 show ?thesis by blast
qed

lemma round_half_up_bounds:
  assumes "0 \<le> x"
  shows "0 \<le> round_half_up x" and "\<bar>of_int (round_half_up x) - x\<bar> \<le> 1 / 2"
    and "x \<le> of_int N \<Longrightarrow> round_half_up x \<le> N"
proof -
  show "0 \<le> round_half_up x" using assms by (simp add: round_half_up_def)
  have "of_int \<lfloor>x + 1 / 2\<rfloor> \<le> x + 1 / 2" "x + 1 / 2 < of_int \<lfloor>x + 1 / 2\<rfloor> + 1"
    by linarith+
  then show "\<bar>of_int (round_half_up x) - x\<bar> \<le> 1 / 2"
    unfolding round_half_up_def by linarith
  assume "x \<le> of_int N"
  then have "x + 1 / 2 < of_int (N + 1)" by simp
  then have "\<lfloor>x + 1 / 2\<rfloor> < N + 1" by (simp only: floor_less_iff)
  then show "round_half_up x \<le> N" by (simp add: round_half_up_def)
qed

lemma toFixed_small:
  "\<bar>q\<bar> < 10 ^ 21 \<Longrightarrow>
   toFixed (Fin s q) f =
     (if s \<and> q \<noteq> 0 then ''-'' else []) @ fixed_digits (round_half_up (\<bar>q\<bar> * 10 ^ f)) f"
  by (simp add: toFixed_def)

lemma toFixed_value:
  assumes "\<bar>q\<bar> < 10 ^ 21" "0 < f"
  defines "n \<equiv> round_half_up (\<bar>q\<bar> * 10 ^ f)"
  shows "decimal_value (toFixed (Fin s q) f) =
      Some ((if s \<and> q \<noteq> 0 then - 1 else 1) * (of_int n / 10 ^ f))"
    and "\<bar>(if s \<and> q \<noteq> 0 then - 1 else 1) * (of_int n / 10 ^ f) - val (Fin s q)\<bar>
      \<le> 1 / (2 * 10 ^ f)"
proof -
  have x: "0 \<le> \<bar>q\<bar> * 10 ^ f" by simp
  have n0: "0 \<le> n" unfolding n_def using x by (rule round_half_up_bounds)
  have ne: "\<bar>of_int n - \<bar>q\<bar> * 10 ^ f\<bar> \<le> 1 / 2"
    unfolding n_def using x by (rule round_half_up_bounds)
  show "decimal_value (toFixed (Fin s q) f) =
      Some ((if s \<and> q \<noteq> 0 then - 1 else 1) * (of_int n / 10 ^ f))"
    using decimal_value_fixed_digits [OF n0 assms(2)]
    by (simp add: toFixed_small [OF assms(1)] n_def [symmetric])
  have "of_int n / 10 ^ f - \<bar>q\<bar> = (of_int n - \<bar>q\<bar> * 10 ^ f) / 10 ^ f"
    by (simp add: field_simps)
  then have "\<bar>of_int n / 10 ^ f - \<bar>q\<bar>\<bar> = \<bar>of_int n - \<bar>q\<bar> * 10 ^ f\<bar> / 10 ^ f"
    by (simp only: abs_divide) simp
  also have "\<dots> \<le> (1 / 2) / 10 ^ f" using ne by (intro divide_right_mono) simp_all
  finally have d: "\<bar>of_int n / 10 ^ f - \<bar>q\<bar>\<bar> \<le> 1 / (2 * 10 ^ f)" by simp
  show "\<bar>(if s \<and> q \<noteq> 0 then - 1 else 1) * (of_int n / 10 ^ f) - val (Fin s q)\<bar>
      \<le> 1 / (2 * 10 ^ f)"
  proof (cases "s \<and> q \<noteq> 0")
    case True
    then have "(if s \<and> q \<noteq> 0 then - 1 else 1) * (of_int n / 10 ^ f) - val (Fin s q) =
        - (of_int n / 10 ^ f - \<bar>q\<bar>)" by simp
    then show ?thesis using d by (simp only: abs_minus_cancel)
  next
    case False
    then have "(if s \<and> q \<noteq> 0 then - 1 else 1) * (of_int n / 10 ^ f) - val (Fin s q) =
        of_int n / 10 ^ f - \<bar>q\<bar>" by auto
    then show ?thesis using d by simp
  qed
qed

lemma decimal_7500: "decimal 7500 = ''7500''"
  by (simp add: decimal.simps digit_char_def)

lemma attendance_20_15: "calculateAttendance (num 20) (num 15) = JString ''75.00''"
proof -
  have q: "(of_int 15 / of_int 20 :: rat) = 3 / 4" "(3 / 4 * 100 :: rat) = of_int 75" by simp_all
  have "rnd (rnd (of_int 15 / of_int 20) * 100) = of_int 75"
    unfolding q(1) rnd_three_quarters q(2) by (rule rnd_int) simp_all
  moreover have "percentage_of (num 15) (num 20) =
      Fin False (rnd (rnd (of_int 15 / of_int 20) * 100))"
    by (rule percentage_of_num(1)) simp_all
  ultimately have p: "percentage_of (num 15) (num 20) = Fin False 75" by simp
  have "round_half_up 7500 = 7500"
    unfolding round_half_up_def by (rule floor_unique) simp_all
  then have "toFixed (Fin False 75) 2 = ''75.00''"
    by (simp add: toFixed_def fixed_digits_def decimal_7500)
  then show ?thesis unfolding calculateAttendance_def p by (simp add: num_def)
qed

lemma attendance_range:
  assumes "is_finite totalClasses" "js_ge totalClasses (num 0)"
    and "js_le (num 0) attendedClasses" "js_le attendedClasses totalClasses"
  shows "\<exists>v. jsval_value (calculateAttendance totalClasses attendedClasses) = Some v \<and>
    0 \<le> v \<and> v \<le> 100"
proof (cases "js_strict_eq totalClasses (num 0)")
  case True
  then show ?thesis by (simp add: calculateAttendance_def num_def)
next
  case False
  from assms(1) obtain st qt where t: "totalClasses = Fin st qt"
    by (cases totalClasses) (auto simp: is_finite_def)
  from False have qt: "qt \<noteq> 0" by (auto simp: t num_def split: if_splits)
  from assms(2) qt have st: "\<not> st" by (auto simp: t js_ge_def num_def split: if_splits)
  from assms(3,4) obtain sa qa where a: "attendedClasses = Fin sa qa"
    by (cases attendedClasses) (auto simp: js_le_def t num_def)
  from assms(3) have sa: "sa \<longrightarrow> qa = 0" by (auto simp: a js_le_def num_def split: if_splits)
  from assms(4) st sa have le: "\<bar>qa\<bar> \<le> \<bar>qt\<bar>"
    by (auto simp: a t js_le_def split: if_splits)
  from percentage_range [OF qt le, of sa st] obtain r where
    r: "percentage_of attendedClasses totalClasses = Fin (sa \<noteq> st) r" "0 \<le> r" "r \<le> 100"
      "qa = 0 \<longrightarrow> r = 0"
    unfolding a t by blast
  have neg: "\<not> ((sa \<noteq> st) \<and> r \<noteq> 0)" using st sa r(4) by auto
  define n where "n = round_half_up (\<bar>r\<bar> * 10 ^ 2)"
  have small: "\<bar>r\<bar> < 10 ^ 21" using r(2,3) by simp
  have x: "0 \<le> \<bar>r\<bar> * 10 ^ 2" by simp
  have n0: "0 \<le> n" unfolding n_def using x by (rule round_half_up_bounds)
  have "\<bar>r\<bar> * 10 ^ 2 \<le> of_int 10000" using r(2,3) by simp
  then have n1: "n \<le> 10000" unfolding n_def using x by (intro round_half_up_bounds(3))
  have ifeq: "(if (sa \<noteq> st) \<and> r \<noteq> 0 then - 1 else 1) = (1::rat)" using neg by simp
  have "decimal_value (toFixed (Fin (sa \<noteq> st) r) 2) =
      Some ((if (sa \<noteq> st) \<and> r \<noteq> 0 then - 1 else 1) * (of_int n / 10 ^ 2))"
    unfolding n_def using small by (intro toFixed_value(1)) simp_all
  then have "decimal_value (toFixed (Fin (sa \<noteq> st) r) 2) = Some (of_int n / 10 ^ 2)"
    unfolding ifeq by simp
  then have "jsval_value (calculateAttendance totalClasses attendedClasses) = Some (of_int n / 10 ^ 2)"
    using False by (simp add: calculateAttendance_def r(1))
  moreover have "(0::rat) \<le> of_int n / 10 ^ 2" using n0 by simp
  moreover have "(of_int n :: rat) \<le> of_int 10000" using n1 by (simp only: of_int_le_iff)
  then have "(of_int n :: rat) / 10 ^ 2 \<le> 100" by simp
  ultimately show ?thesis by blast
qed

lemma attendance_rounded:
  assumes "\<not> js_strict_eq totalClasses (num 0)"
    and "percentage_of attendedClasses totalClasses = Fin s q" "\<bar>q\<bar> < 10 ^ 21"
  shows "\<exists>v n. jsval_value (calculateAttendance totalClasses attendedClasses) = Some v \<and>
    v = of_int n / 100 \<and> \<bar>v - val (Fin s q)\<bar> \<le> 1 / 200"
proof -
  define n where "n = round_half_up (\<bar>q\<bar> * 10 ^ 2)"
  define v :: rat where "v = (if s \<and> q \<noteq> 0 then - 1 else 1) * (of_int n / 10 ^ 2)"
  have "decimal_value (toFixed (Fin s q) 2) = Some v"
    unfolding v_def n_def using assms(3) by (intro toFixed_value(1)) simp_all
  then have 1: "jsval_value (calculateAttendance totalClasses attendedClasses) = Some v"
    using assms(1,2) by (simp add: calculateAttendance_def)
  have "\<bar>v - val (Fin s q)\<bar> \<le> 1 / (2 * 10 ^ 2)"
    unfolding v_def n_def using assms(3) by (intro toFixed_value(2)) simp_all
  then have 2: "\<bar>v - val (Fin s q)\<bar> \<le> 1 / 200" by simp
  have 3: "v = of_int (if s \<and> q \<noteq> 0 then - n else n) / 100" by (simp add: v_def)
  from 1 2 3 show ?thesis by blast
qed

text \<open>
  C2, as the code has it. \<open>calculateAttendance\<close> returns the number \<open>0\<close> when
  \<open>totalClasses === 0\<close> and otherwise the string \<open>toFixed(2)\<close> of
  \<open>attendedClasses / totalClasses * 100\<close>; when that percentage is finite and below
  \<open>10 ^ 21\<close> in magnitude the string is a numeral of hundredths within \<open>0.005\<close> of it.
  For a finite \<open>totalClasses >= 0\<close> and \<open>0 <= attendedClasses <= totalClasses\<close> the
  result lies in \<open>[0, 100]\<close>. \<open>calculateAttendance(20, 15)\<close> is \<open>"75.00"\<close> and
  \<open>calculateAttendance(0, 0)\<close> is \<open>0\<close>.
\<close>

theorem calculateAttendance_spec:
  "(js_strict_eq totalClasses (num 0) \<longrightarrow>
      calculateAttendance totalClasses attendedClasses = JNumber (num 0)) \<and>
   (\<not> js_strict_eq totalClasses (num 0) \<longrightarrow>
      calculateAttendance totalClasses attendedClasses =
        JString (toFixed (percentage_of attendedClasses totalClasses) 2)) \<and>
   (\<not> js_strict_eq totalClasses (num 0) \<and>
    percentage_of attendedClasses totalClasses = Fin s q \<and> \<bar>q\<bar> < 10 ^ 21 \<longrightarrow>
      (\<exists>v n. jsval_value (calculateAttendance totalClasses attendedClasses) = Some v \<and>
         v = of_int n / 100 \<and> \<bar>v - val (Fin s q)\<bar> \<le> 1 / 200)) \<and>
   (is_finite totalClasses \<and> js_ge totalClasses (num 0) \<and>
    js_le (num 0) attendedClasses \<and> js_le attendedClasses totalClasses \<longrightarrow>
      (\<exists>v. jsval_value (calculateAttendance totalClasses attendedClasses) = Some v \<and>
         0 \<le> v \<and> v \<le> 100)) \<and>
   calculateAttendance (num 20) (num 15) = JString ''75.00'' \<and>
   calculateAttendance (num 0) (num 0) = JNumber (num 0)"
proof -
  have a: "js_strict_eq totalClasses (num 0) \<longrightarrow>
      calculateAttendance totalClasses attendedClasses = JNumber (num 0)"
    by (simp add: calculateAttendance_def)
  have b: "\<not> js_strict_eq totalClasses (num 0) \<longrightarrow>
      calculateAttendance totalClasses attendedClasses =
        JString (toFixed (percentage_of attendedClasses totalClasses) 2)"
    by (simp add: calculateAttendance_def)
  have c: "calculateAttendance (num 0) (num 0) = JNumber (num 0)"
    by (simp add: calculateAttendance_def num_def)
  show ?thesis
    using a b c attendance_rounded [of totalClasses attendedClasses s q]
      attendance_range [of totalClasses attendedClasses] attendance_20_15
    by blast
qed

text \<open>The theorem at \<open>(20, 15)\<close>.\<close>

theorem calculateAttendance_spec_witness:
  "is_finite (num 20) \<and> js_ge (num 20) (num 0) \<and> js_le (num 0) (num 15) \<and>
   js_le (num 15) (num 20) \<and> \<not> js_strict_eq (num 20) (num 0) \<and>
   js_strict_eq (num 0) (num 0) \<and>
   calculateAttendance (num 20) (num 15) = JString ''75.00'' \<and>
   (\<exists>v. jsval_value (calculateAttendance (num 20) (num 15)) = Some v \<and> 0 \<le> v \<and> v \<le> 100)"
proof -
  have h: "is_finite (num 20)" "js_ge (num 20) (num 0)" "js_le (num 0) (num 15)"
    "js_le (num 15) (num 20)" "\<not> js_strict_eq (num 20) (num 0)" "js_strict_eq (num 0) (num 0)"
    by (simp_all add: is_finite_def js_ge_def js_le_def num_def MAX_VALUE_def)
  from calculateAttendance_spec [of "num 20" "num 15" False 75] h show ?thesis
    by blast
qed

text \<open>
  Without the finiteness the range fails: \<open>Infinity >= 0\<close> and \<open>0 <= Infinity <= Infinity\<close>
  hold, and \<open>calculateAttendance(Infinity, Infinity)\<close> is the string \<open>"NaN"\<close>.
\<close>

theorem calculateAttendance_infinite:
  "js_ge (Infty False) (num 0) \<and> js_le (num 0) (Infty False) \<and>
   js_le (Infty False) (Infty False) \<and>
   calculateAttendance (Infty False) (Infty False) = JString ''NaN'' \<and>
   jsval_value (calculateAttendance (Infty False) (Infty False)) = None"
  by (simp add: js_ge_def js_le_def num_def calculateAttendance_def percentage_of_def
      toFixed_def decimal_value_def digits_value_def is_digit_def Let_def)

section \<open>Filters and the loading overlay\<close>

lemmas example_defs = example_page_def example_loading_def example_rows_def attendance_row_def
  plain_def overlay_def

lemma elements_for_each_row:
  "elements (for_each_row key f n) = map (\<lambda>e. if has_data key e then f e else e) (elements n)"
  by (induction n) (simp add: map_concat comp_def cong: map_cong)

lemma all_elements_for_each_row:
  "all_elements (map (for_each_row key f) doc) =
   map (\<lambda>e. if has_data key e then f e else e) (all_elements doc)"
  by (simp add: all_elements_def map_concat comp_def elements_for_each_row)

lemma has_data_filter_row: "has_data key (filter_row k wanted row) = has_data key row"
  by (simp add: has_data_def filter_row_def)

lemma querySelectorAll_filtered:
  "querySelectorAll key (map (for_each_row key (filter_row key wanted)) doc) =
   map (filter_row key wanted) (querySelectorAll key doc)"
proof -
  have "filter (has_data key)
          (map (\<lambda>e. if has_data key e then filter_row key wanted e else e) xs) =
        map (filter_row key wanted) (filter (has_data key) xs)" for xs
    by (induction xs) (simp_all add: has_data_filter_row)
  then show ?thesis
    by (simp add: querySelectorAll_def all_elements_for_each_row)
qed

lemma without_display_for_each_row:
  "without_display (for_each_row key (filter_row k wanted) n) = without_display n"
  by (induction n) (simp add: filter_row_def cong: map_cong)

text \<open>
  C4. After \<open>filterByStatus(status)\<close> the rows with a \<open>data-status\<close> attribute are the
  rows of before, each with the display the callback gives it. After
  \<open>filterByStatus('all')\<close> every such row is visible (\<open>display\<close> is empty); after a call
  with another status the rows whose \<open>data-status\<close> equals it are visible and all the
  others have \<open>display\<close> \<open>none\<close>, whatever their \<open>data-day\<close> and \<open>data-semester\<close> are.
\<close>

theorem filterByStatus_rows:
  "querySelectorAll ''status'' (filterByStatus status doc) =
     map (filter_row ''status'' status) (querySelectorAll ''status'' doc) \<and>
   (\<forall>row \<in> set (querySelectorAll ''status'' (filterByStatus ''all'' doc)). display row = '''') \<and>
   (status \<noteq> ''all'' \<longrightarrow>
      (\<forall>row \<in> set (querySelectorAll ''status'' (filterByStatus status doc)).
         (map_of (dataset row) ''status'' = Some status \<longrightarrow> display row = '''') \<and>
         (map_of (dataset row) ''status'' \<noteq> Some status \<longrightarrow> display row = ''none'')))"
proof -
  have e: "\<And>s. querySelectorAll ''status'' (filterByStatus s doc) =
      map (filter_row ''status'' s) (querySelectorAll ''status'' doc)"
    unfolding filterByStatus_def by (rule querySelectorAll_filtered)
  show ?thesis unfolding e by (auto simp: filter_row_def)
qed

text \<open>The theorem on the example page: the hidden absent row is shown, the others hidden.\<close>

theorem filterByStatus_rows_witness:
  "map display (querySelectorAll ''status'' example_page) = ['''', ''none'', ''''] \<and>
   map display (querySelectorAll ''status'' (filterByStatus ''absent'' example_page)) =
     [''none'', '''', ''none''] \<and>
   map display (querySelectorAll ''status'' (filterByStatus ''all'' example_page)) =
     ['''', '''', '''']"
proof -
  have q: "querySelectorAll ''status'' example_page = map elem example_rows"
    by (simp add: querySelectorAll_def all_elements_def has_data_def example_defs)
  from filterByStatus_rows [of "''absent''" example_page]
    filterByStatus_rows [of "''all''" example_page]
  show ?thesis
    unfolding q by (simp add: filter_row_def example_defs)
qed

lemma all_elements_filtered:
  "all_elements (map (for_each_row key (filter_row key wanted)) doc) =
   map (\<lambda>row. if has_data key row
          then row\<lparr>display :=
                 if wanted = ''all'' \<or> map_of (dataset row) key = Some wanted
                 then '''' else ''none''\<rparr>
          else row) (all_elements doc)"
  unfolding all_elements_for_each_row by (rule map_cong) (auto simp: filter_row_def)

text \<open>
  C5. \<open>filterByDay\<close>, \<open>filterByStatus\<close> and \<open>filterBySemester\<close> change nothing but the
  \<open>display\<close> of the selected rows. With the displays cleared, the tree after the call is the
  tree of before: the same nodes in the same order, with the same other attributes. And
  element by element, in document order: an element without the attribute of the filter
  is after the call what it was before, its \<open>display\<close> included, and an element with the
  attribute differs from what it was in its \<open>display\<close> at most, which is empty when the
  filter is \<open>all\<close> or the attribute has the wanted value, and \<open>none\<close> otherwise.
\<close>

theorem filters_change_display_only:
  "map without_display (filterByDay day doc) = map without_display doc \<and>
   map without_display (filterByStatus status doc) = map without_display doc \<and>
   map without_display (filterBySemester semester doc) = map without_display doc \<and>
   all_elements (filterByDay day doc) =
     map (\<lambda>row. if has_data ''day'' row
            then row\<lparr>display :=
                   if day = ''all'' \<or> map_of (dataset row) ''day'' = Some day
                   then '''' else ''none''\<rparr>
            else row) (all_elements doc) \<and>
   all_elements (filterByStatus status doc) =
     map (\<lambda>row. if has_data ''status'' row
            then row\<lparr>display :=
                   if status = ''all'' \<or> map_of (dataset row) ''status'' = Some status
                   then '''' else ''none''\<rparr>
            else row) (all_elements doc) \<and>
   all_elements (filterBySemester semester doc) =
     map (\<lambda>row. if has_data ''semester'' row
            then row\<lparr>display :=
                   if semester = ''all'' \<or> map_of (dataset row) ''semester'' = Some semester
                   then '''' else ''none''\<rparr>
            else row) (all_elements doc)"
proof -
  have a: "map without_display (filterByDay day doc) = map without_display doc"
    "map without_display (filterByStatus status doc) = map without_display doc"
    "map without_display (filterBySemester semester doc) = map without_display doc"
    by (simp_all add: filterByDay_def filterByStatus_def filterBySemester_def comp_def
        without_display_for_each_row)
  show ?thesis
    unfolding a unfolding filterByDay_def filterByStatus_def filterBySemester_def
    by (simp only: all_elements_filtered simp_thms)
qed

text \<open>
  The theorem on the example page, whose elements are the four of the frame of the page and
  the three rows: the four keep their empty \<open>display\<close> under every filter, and the rows are
  shown or hidden by their attribute.
\<close>

theorem filters_change_display_only_witness:
  "map display (all_elements example_page) = ['''', '''', '''', '''', '''', ''none'', ''''] \<and>
   map display (all_elements (filterByDay ''Friday'' example_page)) =
     ['''', '''', '''', '''', ''none'', ''none'', ''''] \<and>
   map display (all_elements (filterByStatus ''absent'' example_page)) =
     ['''', '''', '''', '''', ''none'', '''', ''none''] \<and>
   map display (all_elements (filterBySemester ''all'' example_page)) =
     ['''', '''', '''', '''', '''', '''', ''''] \<and>
   map without_display (filterByDay ''Friday'' example_page) = map without_display example_page"
proof -
  have a: "all_elements example_page =
      plain ''HTML'' # plain ''HEAD'' # plain ''BODY'' # plain ''TABLE'' # map elem example_rows"
    by (simp add: all_elements_def example_defs)
  from filters_change_display_only [of "''Friday''" example_page "''absent''" "''all''"]
  show ?thesis
    unfolding a by (simp add: has_data_def plain_def example_defs)
qed

lemma is_body_appended: "is_body (Node (elem n) cs) = is_body n"
  by (simp add: is_body_def)

lemma appendChild_first_find:
  assumes "find p cs = Some b" "\<And>n ks. p (Node (elem n) ks) = p n"
  shows "\<exists>cs'. appendChild_first p c cs = Some cs' \<and>
    find p cs' = Some (Node (elem b) (children b @ [c])) \<and>
    length (filter q (concat (map elements cs'))) =
      length (filter q (concat (map elements cs))) + length (filter q (elements c))"
  using assms(1)
proof (induction cs)
  case Nil
  then show ?case by simp
next
  case (Cons n cs)
  show ?case
  proof (cases "p n")
    case True
    with Cons.prems have b: "b = n" by simp
    obtain e ks where n: "n = Node e ks" by (cases n)
    show ?thesis using True assms(2) [of n] by (simp add: b n)
  next
    case False
    with Cons show ?thesis by auto
  qed
qed

lemma count_overlay: "length (filter (\<lambda>e. ident e = ''loadingOverlay'') (elements overlay)) = 1"
  by (simp add: overlay_def)

lemma showLoading_once:
  assumes "body_children doc = Some kids"
  shows "\<exists>doc'. showLoading doc = Inr doc' \<and> body_children doc' = Some (kids @ [overlay]) \<and>
    count_id ''loadingOverlay'' doc' = count_id ''loadingOverlay'' doc + 1"
proof -
  from assms obtain e cs rest b where doc: "doc = Node e cs # rest" and h: "tagName e = ''HTML''"
    and f: "find is_body cs = Some b" and k: "kids = children b"
    by (auto simp: body_children_def split: list.splits node.splits if_splits)
  from appendChild_first_find [OF f is_body_appended,
      of overlay "\<lambda>e. ident e = ''loadingOverlay''"]
  obtain cs' where a: "appendChild_first is_body overlay cs = Some cs'"
    and f': "find is_body cs' = Some (Node (elem b) (children b @ [overlay]))"
    and c: "length (filter (\<lambda>e. ident e = ''loadingOverlay'') (concat (map elements cs'))) =
      length (filter (\<lambda>e. ident e = ''loadingOverlay'') (concat (map elements cs))) + 1"
    unfolding count_overlay by blast
  have "showLoading doc = Inr (Node e cs' # rest)"
    by (simp add: showLoading_def body_appendChild_def doc h a)
  moreover have "body_children (Node e cs' # rest) = Some (kids @ [overlay])"
    by (simp add: body_children_def h f' k)
  moreover have "count_id ''loadingOverlay'' (Node e cs' # rest) =
      count_id ''loadingOverlay'' doc + 1"
    using c by (simp add: count_id_def all_elements_def doc)
  ultimately show ?thesis by blast
qed

text \<open>
  C8. On a document that has a body, \<open>showLoading\<close> appends the overlay as the last
  child of the body without looking for an earlier one: two calls in succession leave
  two more elements with the id \<open>loadingOverlay\<close> than before, both at the end of the
  body.
\<close>

theorem showLoading_twice:
  assumes "body_children doc = Some kids"
  shows "\<exists>doc1 doc2. showLoading doc = Inr doc1 \<and> showLoading doc1 = Inr doc2 \<and>
    body_children doc1 = Some (kids @ [overlay]) \<and>
    body_children doc2 = Some (kids @ [overlay, overlay]) \<and>
    count_id ''loadingOverlay'' doc1 = count_id ''loadingOverlay'' doc + 1 \<and>
    count_id ''loadingOverlay'' doc2 = count_id ''loadingOverlay'' doc + 2"
proof -
  from showLoading_once [OF assms] obtain doc1 where
    1: "showLoading doc = Inr doc1" "body_children doc1 = Some (kids @ [overlay])"
      "count_id ''loadingOverlay'' doc1 = count_id ''loadingOverlay'' doc + 1"
    by blast
  from showLoading_once [OF 1(2)] obtain doc2 where
    2: "showLoading doc1 = Inr doc2" "body_children doc2 = Some ((kids @ [overlay]) @ [overlay])"
      "count_id ''loadingOverlay'' doc2 = count_id ''loadingOverlay'' doc1 + 1"
    by blast
  from 1 2 show ?thesis by simp
qed

text \<open>The theorem on the example page, which has a body and no overlay.\<close>

theorem showLoading_twice_witness:
  "body_children example_page = Some [Node (plain ''TABLE'') example_rows] \<and>
   count_id ''loadingOverlay'' example_page = 0 \<and>
   (\<exists>doc1 doc2. showLoading example_page = Inr doc1 \<and> showLoading doc1 = Inr doc2 \<and>
      body_children doc2 = Some [Node (plain ''TABLE'') example_rows, overlay, overlay] \<and>
      count_id ''loadingOverlay'' doc2 = 2)"
proof -
  have b: "body_children example_page = Some [Node (plain ''TABLE'') example_rows]"
    by (simp add: body_children_def is_body_def example_page_def plain_def)
  have c: "count_id ''loadingOverlay'' example_page = 0"
    by (simp add: count_id_def all_elements_def example_defs)
  from showLoading_twice [OF b] b c show ?thesis by auto
qed

lemma find_None_count: "find P xs = None \<longleftrightarrow> length (filter P xs) = 0"
  by (induction xs) simp_all

lemma find_append_None: "find P (xs @ ys) = None \<longleftrightarrow> find P xs = None \<and> find P ys = None"
  by (induction xs) simp_all

lemma remove_first_absent:
  "find (\<lambda>e. ident e = i) (concat (map elements ns)) = None \<Longrightarrow> remove_first i ns = ns"
proof (induction i ns rule: remove_first.induct)
  case (1 i)
  then show ?case by simp
next
  case (2 i e cs ns)
  from "2.prems" have e: "ident e \<noteq> i"
    and cs: "find (\<lambda>e. ident e = i) (concat (map elements cs)) = None"
    and ns: "find (\<lambda>e. ident e = i) (concat (map elements ns)) = None"
    by (simp_all add: find_append_None split: if_splits)
  have "\<not> find (\<lambda>e. ident e = i) (concat (map elements cs)) \<noteq> None" using cs by simp
  from "2.IH"(2) [OF e this ns] show ?case using e cs by simp
qed

lemma remove_first_count:
  "0 < length (filter (\<lambda>e. ident e = i) (concat (map elements ns))) \<Longrightarrow>
   length (filter (\<lambda>e. ident e = i) (concat (map elements (remove_first i ns)))) <
   length (filter (\<lambda>e. ident e = i) (concat (map elements ns)))"
proof (induction i ns rule: remove_first.induct)
  case (1 i)
  then show ?case by simp
next
  case (2 i e cs ns)
  show ?case
  proof (cases "ident e = i")
    case True
    then show ?thesis by simp
  next
    case False
    show ?thesis
    proof (cases "find (\<lambda>e. ident e = i) (concat (map elements cs)) \<noteq> None")
      case True
      then have "0 < length (filter (\<lambda>e. ident e = i) (concat (map elements cs)))"
        by (simp add: find_None_count)
      from "2.IH"(1) [OF False True this] show ?thesis using False True by simp
    next
      case none: False
      then have z: "length (filter (\<lambda>e. ident e = i) (concat (map elements cs))) = 0"
        by (simp add: find_None_count)
      with "2.prems" False have "0 < length (filter (\<lambda>e. ident e = i) (concat (map elements ns)))"
        by simp
      from "2.IH"(2) [OF False none this] show ?thesis using False none z by simp
    qed
  qed
qed

lemma remove_first_subset:
  "set (concat (map elements (remove_first i ns))) \<subseteq> set (concat (map elements ns))"
  by (induction i ns rule: remove_first.induct) auto

lemma remove_first_removed:
  "find (\<lambda>e. ident e = i) (concat (map elements ns)) \<noteq> None \<Longrightarrow>
   \<exists>n. ident (elem n) = i \<and> removed n ns (remove_first i ns)"
proof (induction i ns rule: remove_first.induct)
  case (1 i)
  then show ?case by simp
next
  case (2 i e cs ns)
  show ?case
  proof (cases "ident e = i")
    case True
    have "removed (Node e cs) (Node e cs # ns) ns" by (rule removed.here)
    then show ?thesis using True by (intro exI [of _ "Node e cs"]) simp
  next
    case False
    show ?thesis
    proof (cases "find (\<lambda>e. ident e = i) (concat (map elements cs)) \<noteq> None")
      case True
      from "2.IH"(1) [OF False True True] obtain n where
        n: "ident (elem n) = i" "removed n cs (remove_first i cs)" by blast
      from n(2) have "removed n (Node e cs # ns) (Node e (remove_first i cs) # ns)"
        by (rule removed.inside)
      then show ?thesis using n(1) False True by auto
    next
      case none: False
      with "2.prems" False have f: "find (\<lambda>e. ident e = i) (concat (map elements ns)) \<noteq> None"
        by (simp add: find_append_None)
      from "2.IH"(2) [OF False none f] obtain n where
        n: "ident (elem n) = i" "removed n ns (remove_first i ns)" by blast
      from n(2) have "removed n (Node e cs # ns) (Node e cs # remove_first i ns)"
        by (rule removed.later)
      then show ?thesis using n(1) False none by auto
    qed
  qed
qed

text \<open>
  C9. \<open>hideLoading\<close> raises nothing. With no element of the id \<open>loadingOverlay\<close> it
  leaves the document as it is. With exactly one it removes it: none is left, and the
  document after the call is the document of before without one node of that id and its
  subtree, every other node of the tree staying where it was and as it was. And it never
  adds an element.
\<close>

theorem hideLoading_cases:
  "(count_id ''loadingOverlay'' doc = 0 \<longrightarrow> hideLoading doc = doc) \<and>
   (count_id ''loadingOverlay'' doc = 1 \<longrightarrow>
      count_id ''loadingOverlay'' (hideLoading doc) = 0 \<and>
      (\<exists>n. ident (elem n) = ''loadingOverlay'' \<and> removed n doc (hideLoading doc))) \<and>
   set (all_elements (hideLoading doc)) \<subseteq> set (all_elements doc)"
proof -
  have a: "count_id ''loadingOverlay'' doc = 0 \<longrightarrow> hideLoading doc = doc"
  proof
    assume "count_id ''loadingOverlay'' doc = 0"
    then have "getElementById ''loadingOverlay'' doc = None"
      unfolding count_id_def getElementById_def by (simp only: find_None_count)
    then show "hideLoading doc = doc" by (simp add: hideLoading_def)
  qed
  have b: "count_id ''loadingOverlay'' doc = 1 \<longrightarrow>
      count_id ''loadingOverlay'' (hideLoading doc) = 0 \<and>
      (\<exists>n. ident (elem n) = ''loadingOverlay'' \<and> removed n doc (hideLoading doc))"
  proof
    assume 1: "count_id ''loadingOverlay'' doc = 1"
    then have g: "getElementById ''loadingOverlay'' doc \<noteq> None"
      by (simp add: count_id_def getElementById_def find_None_count)
    then have h: "hideLoading doc = remove_first ''loadingOverlay'' doc"
      by (auto simp: hideLoading_def)
    have "count_id ''loadingOverlay'' (remove_first ''loadingOverlay'' doc) <
        count_id ''loadingOverlay'' doc"
      unfolding count_id_def all_elements_def using 1
      by (intro remove_first_count) (simp add: count_id_def all_elements_def)
    with 1 have c: "count_id ''loadingOverlay'' (hideLoading doc) = 0" by (simp add: h)
    have "\<exists>n. ident (elem n) = ''loadingOverlay'' \<and>
        removed n doc (remove_first ''loadingOverlay'' doc)"
      using g unfolding getElementById_def all_elements_def by (rule remove_first_removed)
    with c show "count_id ''loadingOverlay'' (hideLoading doc) = 0 \<and>
        (\<exists>n. ident (elem n) = ''loadingOverlay'' \<and> removed n doc (hideLoading doc))"
      by (simp add: h)
  qed
  have c: "set (all_elements (hideLoading doc)) \<subseteq> set (all_elements doc)"
    using remove_first_subset [of "''loadingOverlay''" doc]
    by (simp add: hideLoading_def all_elements_def split: option.splits)
  from a b c show ?thesis by blast
qed

text \<open>
  The theorem on the example page: without the overlay, with the overlay after the table
  and with the overlay in front of the table. In both pages with the overlay the node that
  goes is the overlay with its spinner, and the table and its rows stay.
\<close>

theorem hideLoading_cases_witness:
  "count_id ''loadingOverlay'' example_page = 0 \<and> hideLoading example_page = example_page \<and>
   count_id ''loadingOverlay'' example_loading = 1 \<and>
   count_id ''loadingOverlay'' (hideLoading example_loading) = 0 \<and>
   hideLoading example_loading = example_page \<and>
   removed overlay example_loading example_page \<and>
   count_id ''loadingOverlay'' example_loading_first = 1 \<and>
   hideLoading example_loading_first = example_page \<and>
   removed overlay example_loading_first example_page"
proof -
  have c: "count_id ''loadingOverlay'' example_page = 0"
    "count_id ''loadingOverlay'' example_loading = 1"
    "count_id ''loadingOverlay'' example_loading_first = 1"
    by (simp_all add: count_id_def all_elements_def example_defs example_loading_first_def)
  have h: "hideLoading example_loading = example_page"
    "hideLoading example_loading_first = example_page"
    by (simp_all add: hideLoading_def getElementById_def all_elements_def example_defs
        example_loading_first_def)
  have i: "ident (elem n) = ''loadingOverlay'' \<Longrightarrow> removed n example_loading example_page \<Longrightarrow>
      n = overlay" for n
    unfolding example_defs
    by (auto elim!: removed.cases simp: overlay_def plain_def)
  have j: "ident (elem n) = ''loadingOverlay'' \<Longrightarrow>
      removed n example_loading_first example_page \<Longrightarrow> n = overlay" for n
    unfolding example_defs example_loading_first_def
    by (auto elim!: removed.cases simp: overlay_def plain_def)
  from hideLoading_cases [of example_page] hideLoading_cases [of example_loading]
    hideLoading_cases [of example_loading_first] c h i j
  show ?thesis by auto
qed

section \<open>Reading a cookie\<close>

lemma decodeURIComponent_plain:
  "0x25 \<notin> set str \<Longrightarrow> decodeURIComponent str = Inr str"
  by (induction str) simp_all

lemma getCookie_loop_find:
  "getCookie_loop name entries =
     (case find (starts_with_name name) (map trim entries) of
        None \<Rightarrow> Inr None
      | Some cookie \<Rightarrow> map_sum id Some (decodeURIComponent (drop (length name + 1) cookie)))"
  by (induction entries) (simp_all add: Let_def)

text \<open>
  C7, as the code has it. When the cookie string is not empty and some entry, trimmed,
  starts with \<open>name=\<close>, \<open>getCookie\<close> decodes the remainder of the first such entry: it
  returns the decoded string when the remainder is a valid URI encoding (the remainder
  itself when it holds no \<open>%\<close>), and throws the URIError of \<open>decodeURIComponent\<close> when it
  is not. When the cookie string is empty or no entry starts with \<open>name=\<close> the result
  is \<open>null\<close>.
\<close>

theorem getCookie_first_entry:
  "(document_cookie \<noteq> [] \<and>
    find (starts_with_name name) (map trim (split 0x3B document_cookie)) = Some cookie \<longrightarrow>
      (\<forall>v. decodeURIComponent (drop (length name + 1) cookie) = Inr v \<longrightarrow>
         getCookie document_cookie name = Inr (Some v)) \<and>
      (\<forall>e. decodeURIComponent (drop (length name + 1) cookie) = Inl e \<longrightarrow>
         getCookie document_cookie name = Inl e) \<and>
      (0x25 \<notin> set (drop (length name + 1) cookie) \<longrightarrow>
         getCookie document_cookie name = Inr (Some (drop (length name + 1) cookie)))) \<and>
   (document_cookie = [] \<or>
    find (starts_with_name name) (map trim (split 0x3B document_cookie)) = None \<longrightarrow>
      getCookie document_cookie name = Inr None)"
proof -
  have a: "getCookie document_cookie name = Inr None" if "document_cookie = []"
    using that by (simp add: getCookie_def)
  have b: "getCookie document_cookie name = Inr None"
    if "find (starts_with_name name) (map trim (split 0x3B document_cookie)) = None"
    using that by (simp add: getCookie_def getCookie_loop_find)
  have c: "getCookie document_cookie name =
      map_sum id Some (decodeURIComponent (drop (length name + 1) cookie))"
    if "document_cookie \<noteq> []"
      "find (starts_with_name name) (map trim (split 0x3B document_cookie)) = Some cookie"
    using that by (simp add: getCookie_def getCookie_loop_find)
  show ?thesis
    using a b c decodeURIComponent_plain [of "drop (length name + 1) cookie"]
    by auto
qed

text \<open>The theorem on a cookie string with three entries, two of them for one name.\<close>

theorem getCookie_first_entry_witness:
  "find (starts_with_name (js ''csrftoken''))
     (map trim (split 0x3B (js ''id=7; csrftoken=a%20b; csrftoken=c''))) =
     Some (js ''csrftoken=a%20b'') \<and>
   decodeURIComponent (js ''a%20b'') = Inr (js ''a b'') \<and>
   getCookie (js ''id=7; csrftoken=a%20b; csrftoken=c'') (js ''csrftoken'') = Inr (Some (js ''a b'')) \<and>
   getCookie (js ''id=7; csrftoken=a%20b; csrftoken=c'') (js ''id'') = Inr (Some (js ''7'')) \<and>
   getCookie (js ''id=7; csrftoken=a%20b; csrftoken=c'') (js ''token'') = Inr None \<and>
   getCookie [] (js ''csrftoken'') = Inr None"
proof -
  let ?c = "js ''id=7; csrftoken=a%20b; csrftoken=c''"
  have f: "find (starts_with_name (js ''csrftoken'')) (map trim (split 0x3B ?c)) =
      Some (js ''csrftoken=a%20b'')"
    "find (starts_with_name (js ''id'')) (map trim (split 0x3B ?c)) = Some (js ''id=7'')"
    "find (starts_with_name (js ''token'')) (map trim (split 0x3B ?c)) = None"
    by (simp_all add: js_def starts_with_name_def trim_def is_space_def)
  have d: "decodeURIComponent (drop (length (js ''csrftoken'') + 1) (js ''csrftoken=a%20b'')) =
      Inr (js ''a b'')"
    "decodeURIComponent (js ''a%20b'') = Inr (js ''a b'')"
    "drop (length (js ''id'') + 1) (js ''id=7'') = js ''7''"
    "0x25 \<notin> set (js ''7'')"
    by (simp_all add: js_def hex_octet_def hex_digit_def leading_ones_def)
  have n: "?c \<noteq> []" by (simp add: js_def)
  from getCookie_first_entry [of ?c "js ''csrftoken''" "js ''csrftoken=a%20b''"]
    getCookie_first_entry [of ?c "js ''id''" "js ''id=7''"]
    getCookie_first_entry [of ?c "js ''token''"]
    getCookie_first_entry [of "[]" "js ''csrftoken''"]
    f d n
  show ?thesis by simp
qed

text \<open>
  The sentence of the specification, which has a value returned whenever an entry starts with
  \<open>name=\<close>, fails on a malformed escape: \<open>getCookie\<close> throws.
\<close>

theorem getCookie_malformed:
  "find (starts_with_name (js ''csrftoken'')) (map trim (split 0x3B (js ''csrftoken=%''))) =
     Some (js ''csrftoken=%'') \<and>
   decodeURIComponent (js ''%'') = Inl URIError \<and>
   getCookie (js ''csrftoken=%'') (js ''csrftoken'') = Inl URIError"
  by (simp add: js_def getCookie_def starts_with_name_def trim_def is_space_def)

end
